theory Spec2Isabelle
  imports Main "HOL-Library.Multiset"
begin

section \<open>The string helpers of \<open>extractBoundary\<close>\<close>

text \<open>
  A Go string is a sequence of bytes; it is modelled as \<open>string\<close>, whose characters
  are bytes. The functions of package \<open>strings\<close> that \<open>extractBoundary\<close> calls are
  written out on bytes, as the standard library computes them.
\<close>

text \<open>
  \<open>strings.Split(s, sep)\<close> for a separator of one byte (the source only splits on
  \<open>";"\<close>): the pieces between the separators, one more than there are separators.
  \<open>splitFrom\<close> carries the bytes of the current piece in reverse.
\<close>

fun splitFrom :: "char \<Rightarrow> string \<Rightarrow> string \<Rightarrow> string list" where
  "splitFrom sep piece [] = [rev piece]"
| "splitFrom sep piece (c # cs) =
     (if c = sep then rev piece # splitFrom sep [] cs
      else splitFrom sep (c # piece) cs)"

definition Split :: "string \<Rightarrow> char \<Rightarrow> string list" where
  "Split s sep = splitFrom sep [] s"

text \<open>\<open>strings.HasPrefix(s, prefix)\<close>:
  \<^verbatim>\<open>len(s) >= len(prefix) && s[:len(prefix)] == prefix\<close>.\<close>

definition HasPrefix :: "string \<Rightarrow> string \<Rightarrow> bool" where
  "HasPrefix s pre \<longleftrightarrow> length pre \<le> length s \<and> take (length pre) s = pre"

text \<open>
  \<open>strings.TrimSpace\<close> removes leading and trailing white space as Unicode defines it
  (\<open>unicode.IsSpace\<close>), reading the bytes as UTF-8. \<open>spaceRunes\<close> lists the UTF-8
  encodings of the white-space code points: the six ASCII ones, U+0085, U+00A0, U+1680,
  U+2000 to U+200A, U+2028, U+2029, U+202F, U+205F and U+3000. A byte sequence that is
  not one of these encodings (invalid UTF-8 included, which decodes to U+FFFD) is not
  white space.
\<close>

definition spaceRunes :: "string list" where
  "spaceRunes =
     [ [CHR 0x09], [CHR 0x0A], [CHR 0x0B], [CHR 0x0C], [CHR 0x0D], [CHR 0x20],
      [CHR 0xC2, CHR 0x85], [CHR 0xC2, CHR 0xA0],
      [CHR 0xE1, CHR 0x9A, CHR 0x80],
      [CHR 0xE2, CHR 0x80, CHR 0x80], [CHR 0xE2, CHR 0x80, CHR 0x81],
      [CHR 0xE2, CHR 0x80, CHR 0x82], [CHR 0xE2, CHR 0x80, CHR 0x83],
      [CHR 0xE2, CHR 0x80, CHR 0x84], [CHR 0xE2, CHR 0x80, CHR 0x85],
      [CHR 0xE2, CHR 0x80, CHR 0x86], [CHR 0xE2, CHR 0x80, CHR 0x87],
      [CHR 0xE2, CHR 0x80, CHR 0x88], [CHR 0xE2, CHR 0x80, CHR 0x89],
      [CHR 0xE2, CHR 0x80, CHR 0x8A],
      [CHR 0xE2, CHR 0x80, CHR 0xA8], [CHR 0xE2, CHR 0x80, CHR 0xA9],
      [CHR 0xE2, CHR 0x80, CHR 0xAF],
      [CHR 0xE2, CHR 0x81, CHR 0x9F],
      [CHR 0xE3, CHR 0x80, CHR 0x80]]"

text \<open>The number of bytes of the white-space rune that \<open>s\<close> starts with, 0 when
  it starts with none.\<close>

definition leadingSpace :: "string \<Rightarrow> nat" where
  "leadingSpace s =
     (case find (\<lambda>w. HasPrefix s w) spaceRunes of None \<Rightarrow> 0 | Some w \<Rightarrow> length w)"

text \<open>The same at the end of \<open>s\<close>, as \<open>utf8.DecodeLastRuneInString\<close> reads it.\<close>

definition trailingSpace :: "string \<Rightarrow> nat" where
  "trailingSpace s =
     (case find (\<lambda>w. HasPrefix (rev s) (rev w)) spaceRunes of
        None \<Rightarrow> 0 | Some w \<Rightarrow> length w)"

fun trimLeftN :: "nat \<Rightarrow> string \<Rightarrow> string" where
  "trimLeftN 0 s = s"
| "trimLeftN (Suc n) s =
     (if leadingSpace s = 0 then s else trimLeftN n (drop (leadingSpace s) s))"

fun trimRightN :: "nat \<Rightarrow> string \<Rightarrow> string" where
  "trimRightN 0 s = s"
| "trimRightN (Suc n) s =
     (if trailingSpace s = 0 then s
      else trimRightN n (take (length s - trailingSpace s) s))"

text \<open>
  Each round removes at least one byte, so \<open>length s\<close> rounds are enough on either
  side. Go trims the left end first, then the right end of what is left.
\<close>

definition TrimSpace :: "string \<Rightarrow> string" where
  "TrimSpace s = (let l = trimLeftN (length s) s in trimRightN (length l) l)"

section \<open>\<open>extractBoundary\<close>\<close>

definition boundaryPrefix :: string where
  "boundaryPrefix = ''boundary=''"

text \<open>The \<open>for ... range\<close> loop over the pieces, with its early return.\<close>

fun extractBoundaryLoop :: "string list \<Rightarrow> string" where
  "extractBoundaryLoop [] = ''''"
| "extractBoundaryLoop (param # params) =
     (let param' = TrimSpace param
      in if HasPrefix param' boundaryPrefix then drop (length boundaryPrefix) param'
         else extractBoundaryLoop params)"

definition extractBoundary :: "string \<Rightarrow> string" where
  "extractBoundary contentType = extractBoundaryLoop (Split contentType CHR '';'')"

text \<open>
  The specification's wording of the same function: split on \<open>;\<close>, trim every
  piece, take the first piece that starts with \<open>boundary=\<close> and return what follows the
  prefix, or the empty string when there is no such piece.
\<close>

definition extractBoundarySpec :: "string \<Rightarrow> string" where
  "extractBoundarySpec contentType =
     (case find (\<lambda>p. HasPrefix p ''boundary='')
                (map TrimSpace (Split contentType CHR '';'')) of
        None \<Rightarrow> ''''
      | Some p \<Rightarrow> drop 9 p)"

section \<open>The handler and its goroutines\<close>

text \<open>
  \<open>handleRequest\<close> runs in one goroutine and starts one goroutine per CSV line
  (\<open>go processRecord(line, sem, &wg)\<close>). The program is modelled as a transition system:
  the state holds the position and the local variables of every goroutine together with
  the objects they share, and one event makes one goroutine take its next step. An
  execution is a list of events, that is, one interleaving chosen by the scheduler
  together with the answers of the store.
\<close>

type_synonym line = "string list"

text \<open>\<open>type Record struct { ID string }\<close>\<close>

record Record =
  ID :: string

text \<open>The fields of \<open>events.APIGatewayProxyRequest\<close> and
  \<open>events.APIGatewayProxyResponse\<close> that the handler reads and writes.\<close>

record APIGatewayProxyRequest =
  HTTPMethod :: string
  Headers :: "string \<rightharpoonup> string"
  ReqBody :: string

record APIGatewayProxyResponse =
  StatusCode :: nat
  Body :: string

text \<open>\<open>dynamodb.PutItemInput\<close>, for a marshalled item of type \<open>'av\<close>.\<close>

record 'av PutItemInput =
  TableName :: string
  Item :: 'av

text \<open>
  What one call of \<open>reader.NextPart()\<close> yields: an error other than \<open>io.EOF\<close>, or a
  part with its form name and with what \<open>csvReader.ReadAll()\<close> returns on it (an
  error or the lines). \<open>io.EOF\<close> is the end of the list of parts.
\<close>

datatype part = NextPartError string | Part string "string + line list"

text \<open>
  The libraries and the environment that the program calls are parameters of the model:
  the environment variable \<open>TABLE_NAME\<close>, the identifier that the \<open>k\<close>-th call of
  \<open>uuid.New().String()\<close> returns (\<open>None\<close> when \<open>uuid.New()\<close> panics, which it does
  when its source of random bytes fails), \<open>dynamodbattribute.MarshalMap\<close> (\<open>Inl\<close> is
  its error), and the parts that a multipart reader finds in a body for a boundary.
\<close>

record 'av env =
  tableName :: string
  newID :: "nat \<Rightarrow> string option"
  MarshalMap :: "Record \<Rightarrow> string + 'av"
  NewReader :: "string \<Rightarrow> string \<Rightarrow> part list"

datatype log_entry =
    ProcessingBody string
  | ErrorNextPart string
  | ErrorReadingCSV string
  | ProcessingLine line
  | ProcessingRecord line
  | ErrorPutting string
  | Stdout string

text \<open>
  The positions of a \<open>processRecord\<close> goroutine. The two deferred calls run in the
  reverse order of their \<open>defer\<close> statements: first \<open><-sem\<close> (at \<open>TRelease\<close>),
  then \<open>wg.Done()\<close> (at \<open>TSignal\<close>). They also run, in the same order, when the
  goroutine panics in \<open>uuid.New()\<close>; after them the runtime ends the process. They do
  not run on the branch of the \<open>MarshalMap\<close> error, which prints two lines and calls
  \<open>os.Exit(1)\<close>. Every statement is a step of its own, so that the other goroutines
  can run between any two of them.
\<close>

datatype 'av tpc =
    TStart            \<comment> \<open>created by \<open>go\<close>, nothing executed yet\<close>
  | TLogged           \<comment> \<open>after \<open>log.Printf("Processing record: ...")\<close>\<close>
  | TGotId            \<comment> \<open>after \<open>id := uuid.New().String()\<close>\<close>
  | TMarshalled 'av   \<comment> \<open>\<open>MarshalMap\<close> returned \<open>av\<close> and no error\<close>
  | TInPut            \<comment> \<open>\<open>svc.PutItem(input)\<close> called, not yet returned\<close>
  | TRelease          \<comment> \<open>body left; \<open><-sem\<close> is next\<close>
  | TSignal           \<comment> \<open>token released; \<open>wg.Done()\<close> is next\<close>
  | TFinished
  | TMarshalError string  \<comment> \<open>\<open>MarshalMap\<close> returned this error; the first \<open>Println\<close> is next\<close>
  | TPrinted string   \<comment> \<open>first line printed; \<open>fmt.Println(err.Error())\<close> is next\<close>
  | TExiting          \<comment> \<open>both lines printed; \<open>os.Exit(1)\<close> is next\<close>
  | TPanicRelease     \<comment> \<open>\<open>uuid.New()\<close> panicked; the deferred \<open><-sem\<close> is next\<close>
  | TPanicSignal      \<comment> \<open>panicking, token released; the deferred \<open>wg.Done()\<close> is next\<close>
  | TDying            \<comment> \<open>panicking, deferred calls done; the runtime ends the process next\<close>

text \<open>A goroutine's parameters \<open>record\<close> and \<open>sem\<close>, \<open>wg\<close> (one reference for the
  pair, which is allocated together), its position and its local \<open>id\<close>.\<close>

record 'av task =
  t_record :: line
  t_sem :: nat
  t_pc :: "'av tpc"
  t_id :: string

text \<open>
  The positions of \<open>handleRequest\<close>. Inside the block of the file part it holds
  the reference \<open>b\<close> of its \<open>sem\<close> and \<open>wg\<close> and the slice \<open>lines\<close>; inside the
  \<open>range\<close> loop also the index \<open>i\<close> of the iteration and, once read, the element
  \<open>line\<close>.
\<close>

datatype hpc =
    HEntry APIGatewayProxyRequest
  | HNextPart
  | HRange nat "line list" nat   \<comment> \<open>at the head of the \<open>range\<close> loop\<close>
  | HSend nat "line list" nat line   \<comment> \<open>after \<open>wg.Add(1)\<close>, before \<open>sem <- struct{}{}\<close>\<close>
  | HGo nat "line list" nat line   \<comment> \<open>token sent, before the \<open>go\<close> statement\<close>
  | HWait nat "line list"   \<comment> \<open>at \<open>wg.Wait()\<close>\<close>
  | HReturned APIGatewayProxyResponse

text \<open>The process runs, has ended through \<open>os.Exit\<close> with a code, or has been ended
  by the runtime after a panic that no goroutine recovered.\<close>

datatype proc = Running | Exited nat | Panicked

record 'av state =
  handler :: hpc
  reader :: "part list"    \<comment> \<open>what the calls of \<open>NextPart\<close> still to come yield\<close>
  chans :: "nat \<Rightarrow> nat"    \<comment> \<open>the number of tokens in each \<open>sem\<close> channel\<close>
  wgs :: "nat \<Rightarrow> nat"      \<comment> \<open>the counter of each \<open>sync.WaitGroup\<close>\<close>
  nalloc :: nat            \<comment> \<open>the number of \<open>sem\<close>/\<open>wg\<close> pairs allocated\<close>
  tasks :: "'av task list" \<comment> \<open>the goroutines, in the order of their creation\<close>
  uuids :: nat             \<comment> \<open>the number of calls of \<open>uuid.New()\<close> so far\<close>
  puts :: "(nat \<times> 'av PutItemInput) list"
                           \<comment> \<open>the calls of \<open>PutItem\<close>: the calling goroutine and the input\<close>
  logs :: "log_entry list"
  proc :: proc

definition init :: "APIGatewayProxyRequest \<Rightarrow> 'av state" where
  "init request =
     \<lparr>handler = HEntry request, reader = [], chans = (\<lambda>_. 0), wgs = (\<lambda>_. 0), nalloc = 0,
      tasks = [], uuids = 0, puts = [], logs = [], proc = Running\<rparr>"

text \<open>\<open>make(chan struct{}, 500)\<close>\<close>

definition semCapacity :: nat where
  "semCapacity = 500"

definition respond :: "nat \<Rightarrow> string \<Rightarrow> 'av state \<Rightarrow> 'av state" where
  "respond code body s = s\<lparr>handler := HReturned \<lparr>StatusCode = code, Body = body\<rparr>\<rparr>"

text \<open>
  One step of \<open>handleRequest\<close>; \<open>None\<close> when it is blocked (a send on a full channel,
  \<open>wg.Wait()\<close> with a positive counter) or has returned. The capacity \<open>C\<close> of the
  channel is a parameter, which the program sets to \<open>semCapacity\<close>. A missing key of
  \<open>request.Headers\<close> reads as the empty string.
\<close>

definition handleRequest :: "nat \<Rightarrow> 'av env \<Rightarrow> 'av state \<Rightarrow> 'av state option" where
  "handleRequest C env s =
     (case handler s of
        HEntry request \<Rightarrow>
          if HTTPMethod request \<noteq> ''POST'' then Some (respond 405 '''' s)
          else
            let body = ReqBody request;
                contentType = (case Headers request ''Content-Type'' of
                                 None \<Rightarrow> '''' | Some v \<Rightarrow> v)
            in Some (s\<lparr>logs := logs s @ [ProcessingBody body],
                       reader := NewReader env body (extractBoundary contentType),
                       handler := HNextPart\<rparr>)
      | HNextPart \<Rightarrow>
          (case reader s of
             [] \<Rightarrow> Some (respond 200 ''CSV data processed successfully'' s)
           | NextPartError err # ps \<Rightarrow>
               Some (respond 500 ''Error processing file''
                       (s\<lparr>reader := ps, logs := logs s @ [ErrorNextPart err]\<rparr>))
           | Part formName csv # ps \<Rightarrow>
               if formName = ''file'' then
                 (case csv of
                    Inl err \<Rightarrow>
                      Some (respond 400 (''Error reading CSV: '' @ err)
                              (s\<lparr>reader := ps, logs := logs s @ [ErrorReadingCSV err]\<rparr>))
                  | Inr lines \<Rightarrow>
                      Some (s\<lparr>reader := ps,
                              chans := (chans s)(nalloc s := 0),
                              wgs := (wgs s)(nalloc s := 0),
                              nalloc := Suc (nalloc s),
                              handler := HRange (nalloc s) lines 0\<rparr>))
               else Some (s\<lparr>reader := ps\<rparr>))
      | HRange b lines i \<Rightarrow>
          if i < length lines then
            Some (s\<lparr>logs := logs s @ [ProcessingLine (lines ! i)],
                    wgs := (wgs s)(b := Suc (wgs s b)),
                    handler := HSend b lines i (lines ! i)\<rparr>)
          else Some (s\<lparr>handler := HWait b lines\<rparr>)
      | HSend b lines i l \<Rightarrow>
          if chans s b < C
          then Some (s\<lparr>chans := (chans s)(b := Suc (chans s b)),
                       handler := HGo b lines i l\<rparr>)
          else None
      | HGo b lines i l \<Rightarrow>
          Some (s\<lparr>tasks := tasks s @ [\<lparr>t_record = l, t_sem = b, t_pc = TStart, t_id = ''''\<rparr>],
                  handler := HRange b lines (Suc i)\<rparr>)
      | HWait b lines \<Rightarrow>
          if wgs s b = 0 then Some (s\<lparr>handler := HNextPart\<rparr>) else None
      | HReturned r \<Rightarrow> None)"

text \<open>
  One step of goroutine \<open>t\<close> running \<open>processRecord\<close>. A panic of \<open>uuid.New()\<close>
  leaves the body for the deferred calls and then ends the process (\<open>Panicked\<close>); the
  error branch of \<open>MarshalMap\<close> ends it with \<open>os.Exit(1)\<close>, which runs no deferred
  call. While \<open>PutItem\<close> has not returned the goroutine has no step of its own. A
  receive on an empty channel blocks; \<open>wg.Done()\<close> on a counter of zero panics.
\<close>

definition processRecord :: "'av env \<Rightarrow> nat \<Rightarrow> 'av state \<Rightarrow> 'av state option" where
  "processRecord env t s =
     (if length (tasks s) \<le> t then None
      else
        let g = tasks s ! t; b = t_sem g
        in case t_pc g of
             TStart \<Rightarrow>
               Some (s\<lparr>logs := logs s @ [ProcessingRecord (t_record g)],
                       tasks := (tasks s)[t := g\<lparr>t_pc := TLogged\<rparr>]\<rparr>)
           | TLogged \<Rightarrow>
               (case newID env (uuids s) of
                  None \<Rightarrow>
                    Some (s\<lparr>uuids := Suc (uuids s),
                            tasks := (tasks s)[t := g\<lparr>t_pc := TPanicRelease\<rparr>]\<rparr>)
                | Some i \<Rightarrow>
                    Some (s\<lparr>uuids := Suc (uuids s),
                            tasks := (tasks s)[t := g\<lparr>t_id := i, t_pc := TGotId\<rparr>]\<rparr>))
           | TGotId \<Rightarrow>
               (case MarshalMap env \<lparr>ID = t_id g\<rparr> of
                  Inl err \<Rightarrow>
                    Some (s\<lparr>tasks := (tasks s)[t := g\<lparr>t_pc := TMarshalError err\<rparr>]\<rparr>)
                | Inr av \<Rightarrow> Some (s\<lparr>tasks := (tasks s)[t := g\<lparr>t_pc := TMarshalled av\<rparr>]\<rparr>))
           | TMarshalError err \<Rightarrow>
               Some (s\<lparr>logs := logs s @ [Stdout ''Got error marshalling new item:''],
                       tasks := (tasks s)[t := g\<lparr>t_pc := TPrinted err\<rparr>]\<rparr>)
           | TPrinted err \<Rightarrow>
               Some (s\<lparr>logs := logs s @ [Stdout err],
                       tasks := (tasks s)[t := g\<lparr>t_pc := TExiting\<rparr>]\<rparr>)
           | TExiting \<Rightarrow> Some (s\<lparr>proc := Exited 1\<rparr>)
           | TMarshalled av \<Rightarrow>
               Some (s\<lparr>puts := puts s @ [(t, \<lparr>TableName = tableName env, Item = av\<rparr>)],
                       tasks := (tasks s)[t := g\<lparr>t_pc := TInPut\<rparr>]\<rparr>)
           | TInPut \<Rightarrow> None
           | TRelease \<Rightarrow>
               if 0 < chans s b
               then Some (s\<lparr>chans := (chans s)(b := chans s b - 1),
                            tasks := (tasks s)[t := g\<lparr>t_pc := TSignal\<rparr>]\<rparr>)
               else None
           | TSignal \<Rightarrow>
               if 0 < wgs s b
               then Some (s\<lparr>wgs := (wgs s)(b := wgs s b - 1),
                            tasks := (tasks s)[t := g\<lparr>t_pc := TFinished\<rparr>]\<rparr>)
               else Some (s\<lparr>proc := Panicked\<rparr>)
           | TFinished \<Rightarrow> None
           | TPanicRelease \<Rightarrow>
               if 0 < chans s b
               then Some (s\<lparr>chans := (chans s)(b := chans s b - 1),
                            tasks := (tasks s)[t := g\<lparr>t_pc := TPanicSignal\<rparr>]\<rparr>)
               else None
           | TPanicSignal \<Rightarrow>
               if 0 < wgs s b
               then Some (s\<lparr>wgs := (wgs s)(b := wgs s b - 1),
                            tasks := (tasks s)[t := g\<lparr>t_pc := TDying\<rparr>]\<rparr>)
               else Some (s\<lparr>proc := Panicked\<rparr>)
           | TDying \<Rightarrow> Some (s\<lparr>proc := Panicked\<rparr>))"

text \<open>
  The return of the call \<open>svc.PutItem(input)\<close> of goroutine \<open>t\<close> with error \<open>err\<close>
  (\<open>None\<close> is \<open>nil\<close>): an error is logged, and in both cases the body is left.
\<close>

definition putItemReturns :: "nat \<Rightarrow> string option \<Rightarrow> 'av state \<Rightarrow> 'av state option" where
  "putItemReturns t err s =
     (if length (tasks s) \<le> t then None
      else
        let g = tasks s ! t
        in case t_pc g of
             TInPut \<Rightarrow>
               (case err of
                  None \<Rightarrow> Some (s\<lparr>tasks := (tasks s)[t := g\<lparr>t_pc := TRelease\<rparr>]\<rparr>)
                | Some e \<Rightarrow>
                    Some (s\<lparr>logs := logs s @ [ErrorPutting e],
                            tasks := (tasks s)[t := g\<lparr>t_pc := TRelease\<rparr>]\<rparr>))
           | _ \<Rightarrow> None)"

datatype event =
    Handler                    \<comment> \<open>the goroutine of \<open>handleRequest\<close> takes a step\<close>
  | Worker nat                 \<comment> \<open>the goroutine with this index takes a step\<close>
  | Store nat "string option"  \<comment> \<open>the store answers the \<open>PutItem\<close> of this goroutine\<close>

text \<open>No goroutine takes a step once the process has ended.\<close>

definition step :: "nat \<Rightarrow> 'av env \<Rightarrow> event \<Rightarrow> 'av state \<Rightarrow> 'av state option" where
  "step C env e s =
     (if proc s \<noteq> Running then None
      else case e of
             Handler \<Rightarrow> handleRequest C env s
           | Worker t \<Rightarrow> processRecord env t s
           | Store t err \<Rightarrow> putItemReturns t err s)"

fun run :: "nat \<Rightarrow> 'av env \<Rightarrow> event list \<Rightarrow> 'av state \<Rightarrow> 'av state option" where
  "run C env [] s = Some s"
| "run C env (e # es) s =
     (case step C env e s of None \<Rightarrow> None | Some s' \<Rightarrow> run C env es s')"

section \<open>Notions used to state the properties\<close>

text \<open>
  A goroutine holds its admission token from its creation until its deferred
  \<open><-sem\<close> has run; it is unfinished until its deferred \<open>wg.Done()\<close> has run (both
  also on the way out of a panic); it has called \<open>PutItem\<close> from position \<open>TInPut\<close>
  on; it has an identifier once \<open>uuid.New()\<close> has returned one to it.
\<close>

definition holding :: "'av task \<Rightarrow> bool" where
  "holding g \<longleftrightarrow>
     t_pc g \<noteq> TSignal \<and> t_pc g \<noteq> TFinished \<and> t_pc g \<noteq> TPanicSignal \<and> t_pc g \<noteq> TDying"

definition unfinished :: "'av task \<Rightarrow> bool" where
  "unfinished g \<longleftrightarrow> t_pc g \<noteq> TFinished \<and> t_pc g \<noteq> TDying"

definition called :: "'av task \<Rightarrow> bool" where
  "called g \<longleftrightarrow> t_pc g = TInPut \<or> t_pc g = TRelease \<or> t_pc g = TSignal \<or> t_pc g = TFinished"

definition has_id :: "'av task \<Rightarrow> bool" where
  "has_id g \<longleftrightarrow>
     t_pc g \<noteq> TStart \<and> t_pc g \<noteq> TLogged
     \<and> t_pc g \<noteq> TPanicRelease \<and> t_pc g \<noteq> TPanicSignal \<and> t_pc g \<noteq> TDying"

text \<open>
  The positions on the way out of a panic of \<open>uuid.New()\<close>, the positions on the error
  branch of \<open>MarshalMap\<close>, and both together: the positions after a failure that is
  fatal for the process.
\<close>

fun panicking :: "'av tpc \<Rightarrow> bool" where
  "panicking TPanicRelease = True"
| "panicking TPanicSignal = True"
| "panicking TDying = True"
| "panicking pc = False"

fun exiting :: "'av tpc \<Rightarrow> bool" where
  "exiting (TMarshalError err) = True"
| "exiting (TPrinted err) = True"
| "exiting TExiting = True"
| "exiting pc = False"

definition fatal :: "'av tpc \<Rightarrow> bool" where
  "fatal pc \<longleftrightarrow> panicking pc \<or> exiting pc"

definition failing :: "'av task list \<Rightarrow> nat \<Rightarrow> bool" where
  "failing ts t \<longleftrightarrow> t < length ts \<and> fatal (t_pc (ts ! t))"

text \<open>
  Inside the block of a file part: the reference of the current \<open>sem\<close> and \<open>wg\<close>,
  the number of goroutines created for it so far, and what the handler itself has added
  to the channel and to the counter for a goroutine that it has not created yet.
\<close>

fun cur :: "hpc \<Rightarrow> (nat \<times> nat \<times> nat \<times> nat) option" where
  "cur (HRange b lines i) = Some (b, i, 0, 0)"
| "cur (HSend b lines i l) = Some (b, i, 0, 1)"
| "cur (HGo b lines i l) = Some (b, i, 1, 1)"
| "cur (HWait b lines) = Some (b, length lines, 0, 0)"
| "cur (HEntry request) = None"
| "cur HNextPart = None"
| "cur (HReturned r) = None"

text \<open>
  The accounting invariant. Outside the block of a file part no goroutine is
  unfinished. Inside it, the goroutines of earlier blocks are not, the channel holds
  one token for each goroutine that holds one (and one more between the send and the
  \<open>go\<close> statement), the counter of the wait group is the number of unfinished
  goroutines (and one more between \<open>wg.Add(1)\<close> and the \<open>go\<close> statement), and the channel
  is not over its capacity.
\<close>

definition invc ::
  "nat \<Rightarrow> hpc \<Rightarrow> (nat \<Rightarrow> nat) \<Rightarrow> (nat \<Rightarrow> nat) \<Rightarrow> nat \<Rightarrow> 'av task list \<Rightarrow> bool" where
  "invc C h ch wg n ts \<longleftrightarrow>
     (\<forall>g \<in> set ts. t_sem g < n) \<and>
     (case h of HRange b lines i \<Rightarrow> i \<le> length lines
              | HSend b lines i l \<Rightarrow> i < length lines \<and> l = lines ! i
              | HGo b lines i l \<Rightarrow> i < length lines \<and> l = lines ! i
              | _ \<Rightarrow> True) \<and>
     (case cur h of
        None \<Rightarrow> \<forall>g \<in> set ts. \<not> unfinished g
      | Some (b, i, dc, dw) \<Rightarrow>
          b < n
          \<and> (\<forall>g \<in> set ts. t_sem g \<noteq> b \<longrightarrow> \<not> unfinished g)
          \<and> length (filter (\<lambda>g. t_sem g = b) ts) = i
          \<and> ch b = length (filter holding ts) + dc
          \<and> wg b = length (filter unfinished ts) + dw
          \<and> ch b \<le> C)"

definition inv :: "nat \<Rightarrow> 'av state \<Rightarrow> bool" where
  "inv C s \<longleftrightarrow> invc C (handler s) (chans s) (wgs s) (nalloc s) (tasks s)"

text \<open>An execution is over when the handler has returned or the process has ended.\<close>

definition returned :: "'av state \<Rightarrow> bool" where
  "returned s \<longleftrightarrow> (case handler s of HReturned r \<Rightarrow> True | _ \<Rightarrow> False)"

definition final :: "'av state \<Rightarrow> bool" where
  "final s \<longleftrightarrow> proc s \<noteq> Running \<or> returned s"

text \<open>
  A bound on the number of steps still to come: seven for a goroutine from its creation
  to its end, ten for a line still to be handed over (three steps of the handler and the
  seven of its goroutine).
\<close>

fun task_fuel :: "'av tpc \<Rightarrow> nat" where
  "task_fuel TStart = 7"
| "task_fuel TLogged = 6"
| "task_fuel TGotId = 5"
| "task_fuel (TMarshalled av) = 4"
| "task_fuel TInPut = 3"
| "task_fuel TRelease = 2"
| "task_fuel TSignal = 1"
| "task_fuel TFinished = 0"
| "task_fuel (TMarshalError err) = 3"
| "task_fuel (TPrinted err) = 2"
| "task_fuel TExiting = 1"
| "task_fuel TPanicRelease = 3"
| "task_fuel TPanicSignal = 2"
| "task_fuel TDying = 1"

fun part_fuel :: "part \<Rightarrow> nat" where
  "part_fuel (NextPartError err) = 1"
| "part_fuel (Part formName (Inl err)) = 1"
| "part_fuel (Part formName (Inr lines)) = 10 * length lines + 4"

definition parts_fuel :: "part list \<Rightarrow> nat" where
  "parts_fuel ps = Suc (sum_list (map part_fuel ps))"

definition contentTypeOf :: "APIGatewayProxyRequest \<Rightarrow> string" where
  "contentTypeOf request =
     (case Headers request ''Content-Type'' of None \<Rightarrow> '''' | Some v \<Rightarrow> v)"

text \<open>The parts that the reader of a request yields.\<close>

definition partsOf :: "'av env \<Rightarrow> APIGatewayProxyRequest \<Rightarrow> part list" where
  "partsOf env request =
     NewReader env (ReqBody request) (extractBoundary (contentTypeOf request))"

fun handler_fuel :: "'av env \<Rightarrow> hpc \<Rightarrow> part list \<Rightarrow> nat" where
  "handler_fuel env (HEntry request) ps = Suc (parts_fuel (partsOf env request))"
| "handler_fuel env HNextPart ps = parts_fuel ps"
| "handler_fuel env (HRange b lines i) ps = 10 * (length lines - i) + 2 + parts_fuel ps"
| "handler_fuel env (HSend b lines i l) ps = 10 * (length lines - i) + 1 + parts_fuel ps"
| "handler_fuel env (HGo b lines i l) ps = 10 * (length lines - i) + parts_fuel ps"
| "handler_fuel env (HWait b lines) ps = 1 + parts_fuel ps"
| "handler_fuel env (HReturned r) ps = 0"

definition fuel :: "'av env \<Rightarrow> 'av state \<Rightarrow> nat" where
  "fuel env s =
     (if proc s \<noteq> Running then 0
      else Suc (handler_fuel env (handler s) (reader s)
                + sum_list (map (\<lambda>g. task_fuel (t_pc g)) (tasks s))))"

text \<open>
  The lines that the handler hands over, given the parts: the lines of every part named
  \<open>file\<close>, up to the first part that cannot be read or whose CSV cannot be parsed.
\<close>

fun submitted :: "part list \<Rightarrow> line list" where
  "submitted [] = []"
| "submitted (NextPartError err # ps) = []"
| "submitted (Part formName csv # ps) =
     (if formName = ''file''
      then (case csv of Inl err \<Rightarrow> [] | Inr lines \<Rightarrow> lines @ submitted ps)
      else submitted ps)"

definition recordsOf :: "'av env \<Rightarrow> APIGatewayProxyRequest \<Rightarrow> line list" where
  "recordsOf env request =
     (if HTTPMethod request \<noteq> ''POST'' then [] else submitted (partsOf env request))"

text \<open>The lines of the current part that the \<open>range\<close> loop has not handed over yet.\<close>

fun pending :: "hpc \<Rightarrow> line list" where
  "pending (HRange b lines i) = drop i lines"
| "pending (HSend b lines i l) = drop i lines"
| "pending (HGo b lines i l) = drop i lines"
| "pending h = []"

text \<open>The response that the parts determine when the handler gets to return.\<close>

fun response :: "part list \<Rightarrow> APIGatewayProxyResponse" where
  "response [] = \<lparr>StatusCode = 200, Body = ''CSV data processed successfully''\<rparr>"
| "response (NextPartError err # ps) = \<lparr>StatusCode = 500, Body = ''Error processing file''\<rparr>"
| "response (Part formName csv # ps) =
     (if formName = ''file''
      then (case csv of
              Inl err \<Rightarrow> \<lparr>StatusCode = 400, Body = ''Error reading CSV: '' @ err\<rparr>
            | Inr lines \<Rightarrow> response ps)
      else response ps)"

text \<open>Every part can be read, and the CSV of every part named \<open>file\<close> can be parsed.\<close>

fun readable :: "part list \<Rightarrow> bool" where
  "readable [] \<longleftrightarrow> True"
| "readable (NextPartError err # ps) \<longleftrightarrow> False"
| "readable (Part formName csv # ps) \<longleftrightarrow>
     (if formName = ''file'' then (case csv of Inl err \<Rightarrow> False | Inr lines \<Rightarrow> readable ps)
      else readable ps)"

section \<open>Further invariants\<close>

text \<open>
  The calls of \<open>PutItem\<close>: each goroutine that has got to its call has made exactly one,
  with the table name of the environment and with the item that \<open>MarshalMap\<close> returned
  for \<open>Record{ID: id}\<close>, where \<open>id\<close> is the identifier of that goroutine.
\<close>

definition putc :: "'av env \<Rightarrow> (nat \<times> 'av PutItemInput) list \<Rightarrow> 'av task list \<Rightarrow> bool" where
  "putc env ps ts \<longleftrightarrow>
     distinct (map fst ps)
     \<and> set (map fst ps) = {t. t < length ts \<and> called (ts ! t)}
     \<and> (\<forall>(t, inp) \<in> set ps.
           TableName inp = tableName env
           \<and> MarshalMap env \<lparr>ID = t_id (ts ! t)\<rparr> = Inr (Item inp))
     \<and> (\<forall>g \<in> set ts. \<forall>av. t_pc g = TMarshalled av \<longrightarrow>
           MarshalMap env \<lparr>ID = t_id g\<rparr> = Inr av)"

definition putinv :: "'av env \<Rightarrow> 'av state \<Rightarrow> bool" where
  "putinv env s \<longleftrightarrow> putc env (puts s) (tasks s)"

text \<open>
  The generator never repeats an identifier: two calls that return one return different
  ones.
\<close>

definition neverRepeats :: "'av env \<Rightarrow> bool" where
  "neverRepeats env \<longleftrightarrow> inj_on (newID env) {k. newID env k \<noteq> None}"

text \<open>
  The identifiers: each goroutine that has one got it from one of the calls of
  \<open>uuid.New()\<close> made so far, and when the generator never repeats an identifier, no two
  goroutines have the same.
\<close>

definition idc :: "'av env \<Rightarrow> nat \<Rightarrow> 'av task list \<Rightarrow> bool" where
  "idc env n ts \<longleftrightarrow>
     (\<forall>g \<in> set ts. has_id g \<longrightarrow> (\<exists>k < n. newID env k = Some (t_id g)))
     \<and> (neverRepeats env \<longrightarrow>
          (\<forall>t < length ts. \<forall>t' < length ts.
             t \<noteq> t' \<longrightarrow> has_id (ts ! t) \<longrightarrow> has_id (ts ! t') \<longrightarrow>
             t_id (ts ! t) \<noteq> t_id (ts ! t')))"

definition idinv :: "'av env \<Rightarrow> 'av state \<Rightarrow> bool" where
  "idinv env s \<longleftrightarrow> idc env (uuids s) (tasks s)"

text \<open>
  The identifiers that the first \<open>n\<close> calls of \<open>uuid.New()\<close> returned, in the order of
  the calls. The identifiers that the goroutines hold are these, each as often as it was
  returned: every call that returned gave its identifier to exactly one goroutine, and
  every goroutine that has an identifier got it from a call of its own.
\<close>

fun issued :: "'av env \<Rightarrow> nat \<Rightarrow> string list" where
  "issued env 0 = []"
| "issued env (Suc n) = issued env n @ (case newID env n of None \<Rightarrow> [] | Some i \<Rightarrow> [i])"

definition freshinv :: "'av env \<Rightarrow> 'av state \<Rightarrow> bool" where
  "freshinv env s \<longleftrightarrow>
     mset (map t_id (filter has_id (tasks s))) = mset (issued env (uuids s))"

text \<open>
  The goroutines of the block of a file part stand for its lines, in their order: those
  created for the reference \<open>b\<close> have the first \<open>i\<close> lines as their records.
\<close>

fun blockc :: "hpc \<Rightarrow> 'av task list \<Rightarrow> bool" where
  "blockc (HRange b lines i) ts \<longleftrightarrow>
     map t_record (filter (\<lambda>g. t_sem g = b) ts) = take i lines"
| "blockc (HSend b lines i l) ts \<longleftrightarrow>
     map t_record (filter (\<lambda>g. t_sem g = b) ts) = take i lines"
| "blockc (HGo b lines i l) ts \<longleftrightarrow>
     map t_record (filter (\<lambda>g. t_sem g = b) ts) = take i lines"
| "blockc (HWait b lines) ts \<longleftrightarrow>
     map t_record (filter (\<lambda>g. t_sem g = b) ts) = lines"
| "blockc h ts \<longleftrightarrow> True"

definition blockinv :: "'av state \<Rightarrow> bool" where
  "blockinv s \<longleftrightarrow> blockc (handler s) (tasks s)"

text \<open>
  The goroutines created so far, the lines of the current part still to be handed over
  and the lines of the parts still to be read make up the records of the request, in
  their order.
\<close>

fun recc :: "'av env \<Rightarrow> line list \<Rightarrow> hpc \<Rightarrow> part list \<Rightarrow> 'av task list \<Rightarrow> bool" where
  "recc env R (HEntry request) ps ts \<longleftrightarrow> ts = [] \<and> R = recordsOf env request"
| "recc env R (HReturned r) ps ts \<longleftrightarrow> map t_record ts = R"
| "recc env R h ps ts \<longleftrightarrow> map t_record ts @ pending h @ submitted ps = R"

definition recinv :: "'av env \<Rightarrow> line list \<Rightarrow> 'av state \<Rightarrow> bool" where
  "recinv env R s \<longleftrightarrow> recc env R (handler s) (reader s) (tasks s)"

text \<open>The response of a request: 405 unless it is a POST, else what its parts determine.\<close>

definition responseOf :: "'av env \<Rightarrow> APIGatewayProxyRequest \<Rightarrow> APIGatewayProxyResponse" where
  "responseOf env request =
     (if HTTPMethod request \<noteq> ''POST'' then \<lparr>StatusCode = 405, Body = ''''\<rparr>
      else response (partsOf env request))"

fun respc :: "'av env \<Rightarrow> APIGatewayProxyResponse \<Rightarrow> hpc \<Rightarrow> part list \<Rightarrow> bool" where
  "respc env resp (HEntry request) ps \<longleftrightarrow> resp = responseOf env request"
| "respc env resp (HReturned r) ps \<longleftrightarrow> r = resp"
| "respc env resp h ps \<longleftrightarrow> response ps = resp"

definition respinv :: "'av env \<Rightarrow> APIGatewayProxyResponse \<Rightarrow> 'av state \<Rightarrow> bool" where
  "respinv env resp s \<longleftrightarrow> respc env resp (handler s) (reader s)"

text \<open>A goroutine is leaving when its call of \<open>PutItem\<close> has returned: its deferred calls
  are all that it still runs.\<close>

definition leaving :: "'av task list \<Rightarrow> nat \<Rightarrow> bool" where
  "leaving ts k \<longleftrightarrow>
     k < length ts
     \<and> (t_pc (ts ! k) = TRelease \<or> t_pc (ts ! k) = TSignal \<or> t_pc (ts ! k) = TFinished)"

text \<open>
  Failures have causes. A goroutine is on its way out of a panic only when a call of
  \<open>uuid.New()\<close> has panicked, and on the error branch only when \<open>MarshalMap\<close> returns
  an error for its record. The process has ended only through the \<open>os.Exit(1)\<close> of a
  goroutine on the error branch, or through the panic of a goroutine that has run its
  deferred calls.
\<close>

definition causec :: "'av env \<Rightarrow> nat \<Rightarrow> proc \<Rightarrow> 'av task list \<Rightarrow> bool" where
  "causec env n p ts \<longleftrightarrow>
     (\<forall>g \<in> set ts. panicking (t_pc g) \<longrightarrow> (\<exists>k < n. newID env k = None))
     \<and> (\<forall>g \<in> set ts. exiting (t_pc g) \<longrightarrow> (\<exists>e. MarshalMap env \<lparr>ID = t_id g\<rparr> = Inl e))
     \<and> (case p of
          Running \<Rightarrow> True
        | Exited c \<Rightarrow> c = 1 \<and> (\<exists>g \<in> set ts. t_pc g = TExiting)
        | Panicked \<Rightarrow> (\<exists>g \<in> set ts. t_pc g = TDying))"

definition causeinv :: "'av env \<Rightarrow> 'av state \<Rightarrow> bool" where
  "causeinv env s \<longleftrightarrow> causec env (uuids s) (proc s) (tasks s)"

text \<open>All invariants of the executions of a request together.\<close>

definition allinv ::
  "nat \<Rightarrow> 'av env \<Rightarrow> APIGatewayProxyRequest \<Rightarrow> 'av state \<Rightarrow> bool" where
  "allinv C env request s \<longleftrightarrow>
     inv C s \<and> putinv env s \<and> idinv env s \<and> freshinv env s \<and> blockinv s \<and> causeinv env s
     \<and> recinv env (recordsOf env request) s \<and> respinv env (responseOf env request) s"







section \<open>Concrete runs\<close>

text \<open>
  Stand-ins for the libraries (identifiers \<open>id-\<close>, \<open>id-x\<close>, \<open>id-xx\<close>, ... in the
  order of the calls, a marshaller that returns no error, a reader that yields given
  parts), a POST request, and executions on them.
\<close>

definition okEnv :: "part list \<Rightarrow> (string \<times> string) list env" where
  "okEnv ps =
     \<lparr>tableName = ''table-name'',
      newID = (\<lambda>k. Some (''id-'' @ replicate k CHR ''x'')),
      MarshalMap = (\<lambda>r. Inr [(''ID'', ID r)]),
      NewReader = (\<lambda>body boundary. ps)\<rparr>"

text \<open>The same, but the first call of \<open>uuid.New()\<close> panics.\<close>

definition panicEnv :: "part list \<Rightarrow> (string \<times> string) list env" where
  "panicEnv ps =
     \<lparr>tableName = ''table-name'',
      newID = (\<lambda>k. if k = 0 then None else Some (''id-'' @ replicate k CHR ''x'')),
      MarshalMap = (\<lambda>r. Inr [(''ID'', ID r)]),
      NewReader = (\<lambda>body boundary. ps)\<rparr>"

definition postRequest :: APIGatewayProxyRequest where
  "postRequest =
     \<lparr>HTTPMethod = ''POST'',
      Headers = [''Content-Type'' \<mapsto> ''multipart/form-data; boundary=B''],
      ReqBody = ''''\<rparr>"

definition oneLine :: "part list" where
  "oneLine = [Part ''file'' (Inr [ [''a'', ''1'']])]"

definition twoLines :: "part list" where
  "twoLines = [Part ''file'' (Inr [ [''a'', ''1''], [''a'', ''1'']])]"

definition tenLines :: "part list" where
  "tenLines =
     [Part ''file''
        (Inr [ [''r1''], [''r2''], [''r3''], [''r4''], [''r5''],
              [''r6''], [''r7''], [''r8''], [''r9''], [''r10'']])]"

text \<open>
  A body that is cut off in its closing boundary (it ends with \<open>--B\<close>, not with
  \<open>--B--\<close>): the file part is read whole, the next call of \<open>NextPart\<close> fails.
\<close>

definition truncated :: "part list" where
  "truncated = [Part ''file'' (Inr [ [''a'', ''1'']]), NextPartError ''multipart: NextPart: EOF'']"

text \<open>The handler up to its first \<open>wg.Wait()\<close>, for a part of one line and of two.\<close>

definition dispatchOne :: "event list" where
  "dispatchOne = replicate 6 Handler"

definition dispatchTwo :: "event list" where
  "dispatchTwo = replicate 9 Handler"

text \<open>The one line is handed over and written; the handler is still at \<open>wg.Wait()\<close>.\<close>

definition writeOneWaiting :: "event list" where
  "writeOneWaiting =
     dispatchOne @ [Worker 0, Worker 0, Worker 0, Worker 0, Store 0 None, Worker 0, Worker 0]"

text \<open>The same, and the handler has passed \<open>wg.Wait()\<close>.\<close>

definition writeOne :: "event list" where
  "writeOne = writeOneWaiting @ [Handler]"

text \<open>
  Two equal lines are handed over, written one after the other and waited for; the store
  fails the second write; the handler returns.
\<close>

definition secondPutFails :: "event list" where
  "secondPutFails = dispatchTwo @
     [Worker 0, Worker 0, Worker 0, Worker 0, Store 0 None, Worker 0, Worker 0,
      Worker 1, Worker 1, Worker 1, Worker 1, Store 1 (Some ''boom''), Worker 1, Worker 1,
      Handler, Handler]"

text \<open>
  All ten lines are handed over. The goroutine of the fourth line logs and calls
  \<open>uuid.New()\<close>, which panics. Then the goroutine of the fifth line runs up to its call
  of \<open>PutItem\<close>. Then the goroutine of the fourth line runs its two deferred calls and
  the runtime ends the process.
\<close>

definition fifthAfterFourthFailed :: "event list" where
  "fifthAfterFourthFailed =
     replicate 32 Handler @
     [Worker 3, Worker 3, Worker 4, Worker 4, Worker 4, Worker 4, Worker 3, Worker 3, Worker 3]"

text \<open>The one line is handed over and its goroutine has logged: \<open>uuid.New()\<close> is next.\<close>

definition beforeNewID :: "event list" where
  "beforeNewID = dispatchOne @ [Worker 0]"

section \<open>Properties of \<open>extractBoundary\<close>\<close>

text \<open>The rounds of \<open>TrimSpace\<close> are enough: no white space is left at either end.\<close>

lemma spaceRunes_nonempty: "w \<in> set spaceRunes \<Longrightarrow> w \<noteq> []"
  by (auto simp: spaceRunes_def)

lemma leadingSpace_le: "leadingSpace s \<le> length s"
  by (auto simp: leadingSpace_def HasPrefix_def find_Some_iff split: option.splits)

lemma trailingSpace_le: "trailingSpace s \<le> length s"
  by (auto simp: trailingSpace_def HasPrefix_def find_Some_iff split: option.splits)

lemma leadingSpace_zero_iff:
  "leadingSpace s = 0 \<longleftrightarrow> (\<forall>w \<in> set spaceRunes. \<not> HasPrefix s w)"
proof (cases "find (\<lambda>w. HasPrefix s w) spaceRunes")
  case None
  then have "leadingSpace s = 0" by (simp add: leadingSpace_def)
  moreover from None have "\<forall>w \<in> set spaceRunes. \<not> HasPrefix s w"
    by (simp add: find_None_iff)
  ultimately show ?thesis by simp
next
  case (Some w)
  then have "w \<in> set spaceRunes" "HasPrefix s w"
    by (auto simp: find_Some_iff)
  with Some spaceRunes_nonempty [of w] show ?thesis
    by (auto simp: leadingSpace_def)
qed

lemma HasPrefix_take: "HasPrefix (take k s) w \<Longrightarrow> HasPrefix s w"
  by (auto simp: HasPrefix_def min_def split: if_splits)

lemma trimLeftN_enough: "length s \<le> n \<Longrightarrow> leadingSpace (trimLeftN n s) = 0"
proof (induction n arbitrary: s)
  case 0
  with leadingSpace_le [of s] show ?case by simp
next
  case (Suc n)
  show ?case
  proof (cases "leadingSpace s = 0")
    case True
    then show ?thesis by simp
  next
    case False
    with Suc.prems have "length (drop (leadingSpace s) s) \<le> n" by simp
    from Suc.IH [OF this] False show ?thesis by simp
  qed
qed

lemma trimRightN_enough: "length s \<le> n \<Longrightarrow> trailingSpace (trimRightN n s) = 0"
proof (induction n arbitrary: s)
  case 0
  with trailingSpace_le [of s] show ?case by simp
next
  case (Suc n)
  show ?case
  proof (cases "trailingSpace s = 0")
    case True
    then show ?thesis by simp
  next
    case False
    with Suc.prems have "length (take (length s - trailingSpace s) s) \<le> n" by simp
    from Suc.IH [OF this] False show ?thesis by simp
  qed
qed

lemma trimRightN_take: "\<exists>k. trimRightN n s = take k s"
proof (induction n arbitrary: s)
  case 0
  have "trimRightN 0 s = take (length s) s" by simp
  then show ?case by blast
next
  case (Suc n)
  show ?case
  proof (cases "trailingSpace s = 0")
    case True
    then have "trimRightN (Suc n) s = take (length s) s" by simp
    then show ?thesis by blast
  next
    case False
    from Suc.IH [of "take (length s - trailingSpace s) s"]
    obtain k where "trimRightN n (take (length s - trailingSpace s) s)
                    = take k (take (length s - trailingSpace s) s)"
      by blast
    with False have "trimRightN (Suc n) s = take (min k (length s - trailingSpace s)) s"
      by simp
    then show ?thesis by blast
  qed
qed

lemma TrimSpace_trimmed:
  "leadingSpace (TrimSpace s) = 0 \<and> trailingSpace (TrimSpace s) = 0"
proof
  let ?l = "trimLeftN (length s) s"
  have l0: "leadingSpace ?l = 0" by (simp add: trimLeftN_enough)
  obtain k where k: "TrimSpace s = take k ?l"
    using trimRightN_take [of "length ?l" ?l] by (auto simp: TrimSpace_def Let_def)
  from l0 have "\<forall>w \<in> set spaceRunes. \<not> HasPrefix (take k ?l) w"
    by (auto simp: leadingSpace_zero_iff dest: HasPrefix_take)
  with k show "leadingSpace (TrimSpace s) = 0"
    by (simp add: leadingSpace_zero_iff)
  show "trailingSpace (TrimSpace s) = 0"
    by (simp add: TrimSpace_def Let_def trimRightN_enough)
qed

lemma length_boundaryPrefix: "length boundaryPrefix = 9"
  by (simp add: boundaryPrefix_def)

lemma extractBoundaryLoop_find:
  "extractBoundaryLoop ps =
     (case find (\<lambda>p. HasPrefix p boundaryPrefix) (map TrimSpace ps) of
        None \<Rightarrow> ''''
      | Some p \<Rightarrow> drop (length boundaryPrefix) p)"
  by (induction ps) (simp_all add: Let_def)

lemma extractBoundaryLoop_none:
  "(\<forall>p \<in> set ps. \<not> HasPrefix (TrimSpace p) boundaryPrefix) \<Longrightarrow>
   extractBoundaryLoop ps = ''''"
  by (induction ps) (simp_all add: Let_def)

text \<open>
  C10: for every Content-Type string, \<open>extractBoundary\<close> is the function the
  specification words: it splits on \<open>;\<close>, trims each piece and returns what follows
  \<open>boundary=\<close> in the first piece that starts with it, and the empty string when no
  piece does. A piece in which \<open>boundary=\<close> occurs elsewhere than at its start is
  passed over, as the header \<open>a; xboundary=b; boundary=c\<close> shows.
\<close>

theorem extractBoundary_refines_spec:
  "extractBoundary contentType = extractBoundarySpec contentType
   \<and> ((\<forall>p \<in> set (Split contentType CHR '';'').
          \<not> HasPrefix (TrimSpace p) ''boundary='') \<longrightarrow>
        extractBoundary contentType = '''')
   \<and> extractBoundary ''a; xboundary=b; boundary=c'' = ''c''"
proof (intro conjI impI)
  have "extractBoundarySpec contentType =
        (case find (\<lambda>p. HasPrefix p boundaryPrefix)
                   (map TrimSpace (Split contentType CHR '';'')) of
           None \<Rightarrow> ''''
         | Some p \<Rightarrow> drop (length boundaryPrefix) p)"
    unfolding extractBoundarySpec_def length_boundaryPrefix
    by (simp only: boundaryPrefix_def)
  then show "extractBoundary contentType = extractBoundarySpec contentType"
    by (simp only: extractBoundary_def extractBoundaryLoop_find)
next
  assume "\<forall>p \<in> set (Split contentType CHR '';'').
            \<not> HasPrefix (TrimSpace p) ''boundary=''"
  then have "\<forall>p \<in> set (Split contentType CHR '';'').
               \<not> HasPrefix (TrimSpace p) boundaryPrefix"
    by (simp only: boundaryPrefix_def)
  then show "extractBoundary contentType = ''''"
    unfolding extractBoundary_def by (rule extractBoundaryLoop_none)
next
  show "extractBoundary ''a; xboundary=b; boundary=c'' = ''c''"
    by code_simp
qed

theorem extractBoundary_refines_spec_witness:
  "extractBoundary ''multipart/form-data; charset=x'' = ''''
   \<and> extractBoundary '' boundary=xyz ;boundary=abc'' = ''xyz''"
proof
  have "\<forall>p \<in> set (Split ''multipart/form-data; charset=x'' CHR '';'').
          \<not> HasPrefix (TrimSpace p) ''boundary=''"
    by code_simp
  with extractBoundary_refines_spec [of "''multipart/form-data; charset=x''"]
  show "extractBoundary ''multipart/form-data; charset=x'' = ''''"
    by blast
next
  show "extractBoundary '' boundary=xyz ;boundary=abc'' = ''xyz''"
    by code_simp
qed

section \<open>The steps, case by case\<close>

lemma processRecord_cases
  [consumes 1, case_names Log NewID NewIDPanic MarshalError Marshal PrintFirst PrintSecond Exit
     Put Release Done DoneBelowZero PanicRelease PanicDone PanicDoneBelowZero Die]:
  assumes "processRecord env t s = Some s'"
  obtains
    (Log) "t < length (tasks s)" "t_pc (tasks s ! t) = TStart"
      "s' = s\<lparr>logs := logs s @ [ProcessingRecord (t_record (tasks s ! t))],
               tasks := (tasks s)[t := (tasks s ! t)\<lparr>t_pc := TLogged\<rparr>]\<rparr>"
  | (NewID) i where "t < length (tasks s)" "t_pc (tasks s ! t) = TLogged"
      "newID env (uuids s) = Some i"
      "s' = s\<lparr>uuids := Suc (uuids s),
               tasks := (tasks s)[t := (tasks s ! t)\<lparr>t_id := i, t_pc := TGotId\<rparr>]\<rparr>"
  | (NewIDPanic) "t < length (tasks s)" "t_pc (tasks s ! t) = TLogged"
      "newID env (uuids s) = None"
      "s' = s\<lparr>uuids := Suc (uuids s),
               tasks := (tasks s)[t := (tasks s ! t)\<lparr>t_pc := TPanicRelease\<rparr>]\<rparr>"
  | (MarshalError) err where "t < length (tasks s)" "t_pc (tasks s ! t) = TGotId"
      "MarshalMap env \<lparr>ID = t_id (tasks s ! t)\<rparr> = Inl err"
      "s' = s\<lparr>tasks := (tasks s)[t := (tasks s ! t)\<lparr>t_pc := TMarshalError err\<rparr>]\<rparr>"
  | (Marshal) av where "t < length (tasks s)" "t_pc (tasks s ! t) = TGotId"
      "MarshalMap env \<lparr>ID = t_id (tasks s ! t)\<rparr> = Inr av"
      "s' = s\<lparr>tasks := (tasks s)[t := (tasks s ! t)\<lparr>t_pc := TMarshalled av\<rparr>]\<rparr>"
  | (PrintFirst) err where "t < length (tasks s)" "t_pc (tasks s ! t) = TMarshalError err"
      "s' = s\<lparr>logs := logs s @ [Stdout ''Got error marshalling new item:''],
               tasks := (tasks s)[t := (tasks s ! t)\<lparr>t_pc := TPrinted err\<rparr>]\<rparr>"
  | (PrintSecond) err where "t < length (tasks s)" "t_pc (tasks s ! t) = TPrinted err"
      "s' = s\<lparr>logs := logs s @ [Stdout err],
               tasks := (tasks s)[t := (tasks s ! t)\<lparr>t_pc := TExiting\<rparr>]\<rparr>"
  | (Exit) "t < length (tasks s)" "t_pc (tasks s ! t) = TExiting" "s' = s\<lparr>proc := Exited 1\<rparr>"
  | (Put) av where "t < length (tasks s)" "t_pc (tasks s ! t) = TMarshalled av"
      "s' = s\<lparr>puts := puts s @ [(t, \<lparr>TableName = tableName env, Item = av\<rparr>)],
               tasks := (tasks s)[t := (tasks s ! t)\<lparr>t_pc := TInPut\<rparr>]\<rparr>"
  | (Release) "t < length (tasks s)" "t_pc (tasks s ! t) = TRelease"
      "0 < chans s (t_sem (tasks s ! t))"
      "s' = s\<lparr>chans := (chans s)(t_sem (tasks s ! t) := chans s (t_sem (tasks s ! t)) - 1),
               tasks := (tasks s)[t := (tasks s ! t)\<lparr>t_pc := TSignal\<rparr>]\<rparr>"
  | (Done) "t < length (tasks s)" "t_pc (tasks s ! t) = TSignal"
      "0 < wgs s (t_sem (tasks s ! t))"
      "s' = s\<lparr>wgs := (wgs s)(t_sem (tasks s ! t) := wgs s (t_sem (tasks s ! t)) - 1),
               tasks := (tasks s)[t := (tasks s ! t)\<lparr>t_pc := TFinished\<rparr>]\<rparr>"
  | (DoneBelowZero) "t < length (tasks s)" "t_pc (tasks s ! t) = TSignal"
      "wgs s (t_sem (tasks s ! t)) = 0" "s' = s\<lparr>proc := Panicked\<rparr>"
  | (PanicRelease) "t < length (tasks s)" "t_pc (tasks s ! t) = TPanicRelease"
      "0 < chans s (t_sem (tasks s ! t))"
      "s' = s\<lparr>chans := (chans s)(t_sem (tasks s ! t) := chans s (t_sem (tasks s ! t)) - 1),
               tasks := (tasks s)[t := (tasks s ! t)\<lparr>t_pc := TPanicSignal\<rparr>]\<rparr>"
  | (PanicDone) "t < length (tasks s)" "t_pc (tasks s ! t) = TPanicSignal"
      "0 < wgs s (t_sem (tasks s ! t))"
      "s' = s\<lparr>wgs := (wgs s)(t_sem (tasks s ! t) := wgs s (t_sem (tasks s ! t)) - 1),
               tasks := (tasks s)[t := (tasks s ! t)\<lparr>t_pc := TDying\<rparr>]\<rparr>"
  | (PanicDoneBelowZero) "t < length (tasks s)" "t_pc (tasks s ! t) = TPanicSignal"
      "wgs s (t_sem (tasks s ! t)) = 0" "s' = s\<lparr>proc := Panicked\<rparr>"
  | (Die) "t < length (tasks s)" "t_pc (tasks s ! t) = TDying" "s' = s\<lparr>proc := Panicked\<rparr>"
proof -
  from assms have t: "t < length (tasks s)"
    by (auto simp: processRecord_def split: if_splits)
  show thesis
  proof (cases "t_pc (tasks s ! t)")
    case TStart
    with assms t show thesis by (intro Log) (simp_all add: processRecord_def Let_def)
  next
    case TLogged
    show thesis
    proof (cases "newID env (uuids s)")
      case None
      with assms t TLogged show thesis
        by (intro NewIDPanic) (simp_all add: processRecord_def Let_def)
    next
      case (Some i)
      with assms t TLogged show thesis
        by (intro NewID [of i]) (simp_all add: processRecord_def Let_def)
    qed
  next
    case TGotId
    show thesis
    proof (cases "MarshalMap env \<lparr>ID = t_id (tasks s ! t)\<rparr>")
      case (Inl err)
      with assms t TGotId show thesis
        by (intro MarshalError [of err]) (simp_all add: processRecord_def Let_def)
    next
      case (Inr av)
      with assms t TGotId show thesis
        by (intro Marshal [of av]) (simp_all add: processRecord_def Let_def)
    qed
  next
    case (TMarshalled av)
    with assms t show thesis by (intro Put [of av]) (simp_all add: processRecord_def Let_def)
  next
    case TInPut
    with assms t show thesis by (simp add: processRecord_def Let_def)
  next
    case TRelease
    with assms t show thesis
      by (intro Release) (simp_all add: processRecord_def Let_def split: if_splits)
  next
    case TSignal
    show thesis
    proof (cases "0 < wgs s (t_sem (tasks s ! t))")
      case True
      with assms t TSignal show thesis
        by (intro Done) (simp_all add: processRecord_def Let_def)
    next
      case False
      with assms t TSignal show thesis
        by (intro DoneBelowZero) (simp_all add: processRecord_def Let_def)
    qed
  next
    case TFinished
    with assms t show thesis by (simp add: processRecord_def Let_def)
  next
    case (TMarshalError err)
    with assms t show thesis
      by (intro PrintFirst [of err]) (simp_all add: processRecord_def Let_def)
  next
    case (TPrinted err)
    with assms t show thesis
      by (intro PrintSecond [of err]) (simp_all add: processRecord_def Let_def)
  next
    case TExiting
    with assms t show thesis by (intro Exit) (simp_all add: processRecord_def Let_def)
  next
    case TPanicRelease
    with assms t show thesis
      by (intro PanicRelease) (simp_all add: processRecord_def Let_def split: if_splits)
  next
    case TPanicSignal
    show thesis
    proof (cases "0 < wgs s (t_sem (tasks s ! t))")
      case True
      with assms t TPanicSignal show thesis
        by (intro PanicDone) (simp_all add: processRecord_def Let_def)
    next
      case False
      with assms t TPanicSignal show thesis
        by (intro PanicDoneBelowZero) (simp_all add: processRecord_def Let_def)
    qed
  next
    case TDying
    with assms t show thesis by (intro Die) (simp_all add: processRecord_def Let_def)
  qed
qed

lemma putItemReturns_cases [consumes 1, case_names Returned]:
  assumes "putItemReturns t err s = Some s'"
  obtains (Returned) "t < length (tasks s)" "t_pc (tasks s ! t) = TInPut"
      "s' = s\<lparr>logs := logs s @ (case err of None \<Rightarrow> [] | Some e \<Rightarrow> [ErrorPutting e]),
               tasks := (tasks s)[t := (tasks s ! t)\<lparr>t_pc := TRelease\<rparr>]\<rparr>"
proof -
  from assms have t: "t < length (tasks s)" and pc: "t_pc (tasks s ! t) = TInPut"
    by (auto simp: putItemReturns_def Let_def split: if_splits tpc.splits)
  with assms show thesis
    by (intro Returned) (auto simp: putItemReturns_def Let_def split: option.splits)
qed

lemma handleRequest_cases
  [consumes 1, case_names NotPost Entry Eof PartError Skip CsvError File Next End Send Go Wait]:
  assumes "handleRequest C env s = Some s'"
  obtains
    (NotPost) request where "handler s = HEntry request" "HTTPMethod request \<noteq> ''POST''"
      "s' = respond 405 '''' s"
  | (Entry) request where "handler s = HEntry request" "HTTPMethod request = ''POST''"
      "s' = s\<lparr>logs := logs s @ [ProcessingBody (ReqBody request)],
               reader := partsOf env request, handler := HNextPart\<rparr>"
  | (Eof) "handler s = HNextPart" "reader s = []"
      "s' = respond 200 ''CSV data processed successfully'' s"
  | (PartError) err ps where "handler s = HNextPart" "reader s = NextPartError err # ps"
      "s' = respond 500 ''Error processing file''
              (s\<lparr>reader := ps, logs := logs s @ [ErrorNextPart err]\<rparr>)"
  | (Skip) formName csv ps where "handler s = HNextPart" "reader s = Part formName csv # ps"
      "formName \<noteq> ''file''" "s' = s\<lparr>reader := ps\<rparr>"
  | (CsvError) err ps where "handler s = HNextPart" "reader s = Part ''file'' (Inl err) # ps"
      "s' = respond 400 (''Error reading CSV: '' @ err)
              (s\<lparr>reader := ps, logs := logs s @ [ErrorReadingCSV err]\<rparr>)"
  | (File) lines ps where "handler s = HNextPart" "reader s = Part ''file'' (Inr lines) # ps"
      "s' = s\<lparr>reader := ps, chans := (chans s)(nalloc s := 0), wgs := (wgs s)(nalloc s := 0),
               nalloc := Suc (nalloc s), handler := HRange (nalloc s) lines 0\<rparr>"
  | (Next) b lines i where "handler s = HRange b lines i" "i < length lines"
      "s' = s\<lparr>logs := logs s @ [ProcessingLine (lines ! i)],
               wgs := (wgs s)(b := Suc (wgs s b)), handler := HSend b lines i (lines ! i)\<rparr>"
  | (End) b lines i where "handler s = HRange b lines i" "\<not> i < length lines"
      "s' = s\<lparr>handler := HWait b lines\<rparr>"
  | (Send) b lines i l where "handler s = HSend b lines i l" "chans s b < C"
      "s' = s\<lparr>chans := (chans s)(b := Suc (chans s b)), handler := HGo b lines i l\<rparr>"
  | (Go) b lines i l where "handler s = HGo b lines i l"
      "s' = s\<lparr>tasks := tasks s @ [\<lparr>t_record = l, t_sem = b, t_pc = TStart, t_id = ''''\<rparr>],
               handler := HRange b lines (Suc i)\<rparr>"
  | (Wait) b lines where "handler s = HWait b lines" "wgs s b = 0"
      "s' = s\<lparr>handler := HNextPart\<rparr>"
proof (cases "handler s")
  case (HEntry request)
  with assms show thesis
    by (cases "HTTPMethod request = ''POST''")
       (auto simp: handleRequest_def Let_def partsOf_def contentTypeOf_def
             intro: NotPost [of request] Entry [of request])
next
  case HNextPart
  show thesis
  proof (cases "reader s")
    case Nil
    with assms HNextPart show thesis by (intro Eof) (simp_all add: handleRequest_def)
  next
    case (Cons p ps)
    show thesis
    proof (cases p)
      case (NextPartError err)
      with assms HNextPart Cons show thesis
        by (intro PartError [of err ps]) (simp_all add: handleRequest_def)
    next
      case (Part formName csv)
      show thesis
      proof (cases "formName = ''file''")
        case False
        with assms HNextPart Cons Part show thesis
          by (intro Skip [of formName csv ps]) (simp_all add: handleRequest_def)
      next
        case True
        show thesis
        proof (cases csv)
          case (Inl err)
          with assms HNextPart Cons Part True show thesis
            by (intro CsvError [of err ps]) (simp_all add: handleRequest_def)
        next
          case (Inr lines)
          with assms HNextPart Cons Part True show thesis
            by (intro File [of lines ps]) (simp_all add: handleRequest_def)
        qed
      qed
    qed
  qed
next
  case (HRange b lines i)
  with assms show thesis
    by (cases "i < length lines")
       (auto simp: handleRequest_def intro: Next [of b lines i] End [of b lines i])
next
  case (HSend b lines i l)
  with assms show thesis
    by (intro Send [of b lines i l]) (simp_all add: handleRequest_def split: if_splits)
next
  case (HGo b lines i l)
  with assms show thesis
    by (intro Go [of b lines i l]) (simp_all add: handleRequest_def)
next
  case (HWait b lines)
  with assms show thesis
    by (intro Wait [of b lines]) (simp_all add: handleRequest_def split: if_splits)
next
  case (HReturned r)
  with assms show thesis by (simp add: handleRequest_def)
qed

section \<open>The token and counter accounting is invariant\<close>

lemma count_update:
  "t < length xs \<Longrightarrow>
   length (filter P (xs[t := y])) + (if P (xs ! t) then 1 else 0)
     = length (filter P xs) + (if P y then 1 else 0)"
proof (induction xs arbitrary: t)
  case Nil
  then show ?case by simp
next
  case (Cons x xs)
  then show ?case by (cases t) auto
qed

lemma count_same:
  "t < length xs \<Longrightarrow> P y = P (xs ! t) \<Longrightarrow>
   length (filter P (xs[t := y])) = length (filter P xs)"
  using count_update [of t xs P y] by (simp split: if_splits)

lemma count_drop:
  "t < length xs \<Longrightarrow> P (xs ! t) \<Longrightarrow> \<not> P y \<Longrightarrow>
   Suc (length (filter P (xs[t := y]))) = length (filter P xs)"
  using count_update [of t xs P y] by simp

lemma count_zero: "(\<forall>x \<in> set xs. \<not> P x) \<Longrightarrow> length (filter P xs) = 0"
  by (induction xs) auto

lemma count_pos: "t < length xs \<Longrightarrow> P (xs ! t) \<Longrightarrow> 0 < length (filter P xs)"
  by (metis filter_empty_conv length_greater_0_conv nth_mem)

lemma ball_update:
  "(\<forall>x \<in> set xs. P x) \<Longrightarrow> P y \<Longrightarrow> (\<forall>x \<in> set (xs[t := y]). P x)"
  using set_update_subset_insert [of xs t y] by auto

lemma holding_unfinished: "holding g \<Longrightarrow> unfinished g"
  by (simp add: holding_def unfinished_def)

lemma inv_init: "inv C (init request)"
  by (simp add: inv_def invc_def init_def)

lemma invc_cases:
  assumes "invc C h ch wg n ts" "t < length ts" "unfinished (ts ! t)"
  obtains i dc dw where "cur h = Some (t_sem (ts ! t), i, dc, dw)"
proof (cases "cur h")
  case None
  with assms show ?thesis
    by (auto simp: invc_def)
next
  case (Some q)
  obtain b i dc dw where q: "q = (b, i, dc, dw)" by (cases q) auto
  from assms Some q have "t_sem (ts ! t) = b"
    by (auto simp: invc_def)
  with Some q that show ?thesis by simp
qed

text \<open>A goroutine moves on without a change of what it holds and owes.\<close>

lemma invc_move:
  assumes I: "invc C h ch wg n ts" and t: "t < length ts"
    and h: "holding g' = holding (ts ! t)" and u: "unfinished g' = unfinished (ts ! t)"
    and sm: "t_sem g' = t_sem (ts ! t)"
  shows "invc C h ch wg n (ts[t := g'])"
proof -
  have mem: "ts ! t \<in> set ts" using t by simp
  have c1: "length (filter holding (ts[t := g'])) = length (filter holding ts)"
    using t h by (simp add: count_same)
  have c2: "length (filter unfinished (ts[t := g'])) = length (filter unfinished ts)"
    using t u by (simp add: count_same)
  have c3: "length (filter (\<lambda>g. t_sem g = b) (ts[t := g'])) = length (filter (\<lambda>g. t_sem g = b) ts)" for b
    using t sm by (simp add: count_same)
  have b1: "\<forall>g \<in> set (ts[t := g']). t_sem g < n"
    using I mem sm by (intro ball_update) (auto simp: invc_def)
  show ?thesis
  proof (cases "cur h")
    case None
    with I mem u have "\<forall>g \<in> set (ts[t := g']). \<not> unfinished g"
      by (intro ball_update) (auto simp: invc_def)
    with I None b1 show ?thesis by (simp add: invc_def)
  next
    case (Some q)
    obtain b i dc dw where q: "q = (b, i, dc, dw)" by (cases q) auto
    from I Some q mem u sm have "\<forall>g \<in> set (ts[t := g']). t_sem g \<noteq> b \<longrightarrow> \<not> unfinished g"
      by (intro ball_update) (auto simp: invc_def)
    with I Some q b1 show ?thesis by (simp add: invc_def c1 c2 c3)
  qed
qed

text \<open>A goroutine runs its deferred \<open><-sem\<close>.\<close>

lemma invc_release:
  assumes I: "invc C h ch wg n ts" and t: "t < length ts"
    and h1: "holding (ts ! t)" and h2: "\<not> holding g'" and u2: "unfinished g'"
    and sm: "t_sem g' = t_sem (ts ! t)" and b: "b = t_sem (ts ! t)"
  shows "0 < ch b \<and> invc C h (ch(b := ch b - 1)) wg n (ts[t := g'])"
proof -
  from h1 have u1: "unfinished (ts ! t)" by (rule holding_unfinished)
  from I t u1 obtain i dc dw where c: "cur h = Some (t_sem (ts ! t), i, dc, dw)"
    by (rule invc_cases)
  have mem: "ts ! t \<in> set ts" using t by simp
  have c1: "Suc (length (filter holding (ts[t := g']))) = length (filter holding ts)"
    using t h1 h2 by (simp add: count_drop)
  have c2: "length (filter unfinished (ts[t := g'])) = length (filter unfinished ts)"
    using t u1 u2 by (simp add: count_same)
  have c3: "length (filter (\<lambda>g. t_sem g = b) (ts[t := g'])) = length (filter (\<lambda>g. t_sem g = b) ts)" for b
    using t sm by (simp add: count_same)
  have b1: "\<forall>g \<in> set (ts[t := g']). t_sem g < n"
    using I mem sm by (intro ball_update) (auto simp: invc_def)
  have b2: "\<forall>g \<in> set (ts[t := g']). t_sem g \<noteq> t_sem (ts ! t) \<longrightarrow> \<not> unfinished g"
    using I c sm by (intro ball_update) (auto simp: invc_def)
  from c1 have p: "0 < length (filter holding ts)" by arith
  from I c p have pos: "0 < ch b" by (auto simp: invc_def b)
  from I c b1 b2 have "invc C h (ch(b := ch b - 1)) wg n (ts[t := g'])"
    by (simp add: invc_def c2 c3 b c1 [symmetric])
  with pos show ?thesis by simp
qed

text \<open>A goroutine runs its deferred \<open>wg.Done()\<close>.\<close>

lemma invc_done:
  assumes I: "invc C h ch wg n ts" and t: "t < length ts"
    and h1: "\<not> holding (ts ! t)" and u1: "unfinished (ts ! t)"
    and h2: "\<not> holding g'" and u2: "\<not> unfinished g'"
    and sm: "t_sem g' = t_sem (ts ! t)" and b: "b = t_sem (ts ! t)"
  shows "0 < wg b \<and> invc C h ch (wg(b := wg b - 1)) n (ts[t := g'])"
proof -
  from I t u1 obtain i dc dw where c: "cur h = Some (t_sem (ts ! t), i, dc, dw)"
    by (rule invc_cases)
  have mem: "ts ! t \<in> set ts" using t by simp
  have c1: "length (filter holding (ts[t := g'])) = length (filter holding ts)"
    using t h1 h2 by (simp add: count_same)
  have c2: "Suc (length (filter unfinished (ts[t := g']))) = length (filter unfinished ts)"
    using t u1 u2 by (simp add: count_drop)
  have c3: "length (filter (\<lambda>g. t_sem g = b) (ts[t := g'])) = length (filter (\<lambda>g. t_sem g = b) ts)" for b
    using t sm by (simp add: count_same)
  have b1: "\<forall>g \<in> set (ts[t := g']). t_sem g < n"
    using I mem sm by (intro ball_update) (auto simp: invc_def)
  have b2: "\<forall>g \<in> set (ts[t := g']). t_sem g \<noteq> t_sem (ts ! t) \<longrightarrow> \<not> unfinished g"
    using I c u2 by (intro ball_update) (auto simp: invc_def)
  from c2 have p: "0 < length (filter unfinished ts)" by arith
  from I c p have pos: "0 < wg b" by (auto simp: invc_def b)
  from I c b1 b2 have "invc C h ch (wg(b := wg b - 1)) n (ts[t := g'])"
    by (simp add: invc_def c1 c3 b c2 [symmetric])
  with pos show ?thesis by simp
qed

text \<open>In a reachable state a deferred call never finds its channel empty or its counter
  at zero.\<close>

lemma holding_token:
  assumes "inv C s" "t < length (tasks s)" "holding (tasks s ! t)"
  shows "0 < chans s (t_sem (tasks s ! t))"
proof -
  from assms(1) have I: "invc C (handler s) (chans s) (wgs s) (nalloc s) (tasks s)"
    by (simp add: inv_def)
  from I assms(2) holding_unfinished [OF assms(3)]
  obtain i dc dw where c: "cur (handler s) = Some (t_sem (tasks s ! t), i, dc, dw)"
    by (rule invc_cases)
  from count_pos [of t "tasks s" holding, OF assms(2,3)] I c show ?thesis
    by (simp add: invc_def)
qed

lemma unfinished_counted:
  assumes "inv C s" "t < length (tasks s)" "unfinished (tasks s ! t)"
  shows "0 < wgs s (t_sem (tasks s ! t))"
proof -
  from assms(1) have I: "invc C (handler s) (chans s) (wgs s) (nalloc s) (tasks s)"
    by (simp add: inv_def)
  from I assms(2,3)
  obtain i dc dw where c: "cur (handler s) = Some (t_sem (tasks s ! t), i, dc, dw)"
    by (rule invc_cases)
  from count_pos [of t "tasks s" unfinished, OF assms(2,3)] I c show ?thesis
    by (simp add: invc_def)
qed

lemma inv_processRecord:
  assumes I: "inv C s" and st: "processRecord env t s = Some s'"
  shows "inv C s'"
proof -
  from I have Ic: "invc C (handler s) (chans s) (wgs s) (nalloc s) (tasks s)"
    by (simp add: inv_def)
  note M = invc_move [OF Ic]
  note R = invc_release [OF Ic]
  note D = invc_done [OF Ic]
  from st show ?thesis
  proof (cases rule: processRecord_cases)
    case Log
    with M [of t "(tasks s ! t)\<lparr>t_pc := TLogged\<rparr>"] show ?thesis
      by (simp add: inv_def holding_def unfinished_def)
  next
    case (NewID i)
    with M [of t "(tasks s ! t)\<lparr>t_id := i, t_pc := TGotId\<rparr>"] show ?thesis
      by (simp add: inv_def holding_def unfinished_def)
  next
    case NewIDPanic
    with M [of t "(tasks s ! t)\<lparr>t_pc := TPanicRelease\<rparr>"] show ?thesis
      by (simp add: inv_def holding_def unfinished_def)
  next
    case (MarshalError err)
    with M [of t "(tasks s ! t)\<lparr>t_pc := TMarshalError err\<rparr>"] show ?thesis
      by (simp add: inv_def holding_def unfinished_def)
  next
    case (Marshal av)
    with M [of t "(tasks s ! t)\<lparr>t_pc := TMarshalled av\<rparr>"] show ?thesis
      by (simp add: inv_def holding_def unfinished_def)
  next
    case (PrintFirst err)
    with M [of t "(tasks s ! t)\<lparr>t_pc := TPrinted err\<rparr>"] show ?thesis
      by (simp add: inv_def holding_def unfinished_def)
  next
    case (PrintSecond err)
    with M [of t "(tasks s ! t)\<lparr>t_pc := TExiting\<rparr>"] show ?thesis
      by (simp add: inv_def holding_def unfinished_def)
  next
    case Exit
    with I show ?thesis by (simp add: inv_def)
  next
    case (Put av)
    with M [of t "(tasks s ! t)\<lparr>t_pc := TInPut\<rparr>"] show ?thesis
      by (simp add: inv_def holding_def unfinished_def)
  next
    case Release
    with R [of t "(tasks s ! t)\<lparr>t_pc := TSignal\<rparr>", OF _ _ _ _ _ refl] show ?thesis
      by (simp add: inv_def holding_def unfinished_def)
  next
    case Done
    with D [of t "(tasks s ! t)\<lparr>t_pc := TFinished\<rparr>", OF _ _ _ _ _ _ refl] show ?thesis
      by (simp add: inv_def holding_def unfinished_def)
  next
    case DoneBelowZero
    with I show ?thesis by (simp add: inv_def)
  next
    case PanicRelease
    with R [of t "(tasks s ! t)\<lparr>t_pc := TPanicSignal\<rparr>", OF _ _ _ _ _ refl] show ?thesis
      by (simp add: inv_def holding_def unfinished_def)
  next
    case PanicDone
    with D [of t "(tasks s ! t)\<lparr>t_pc := TDying\<rparr>", OF _ _ _ _ _ _ refl] show ?thesis
      by (simp add: inv_def holding_def unfinished_def)
  next
    case PanicDoneBelowZero
    with I show ?thesis by (simp add: inv_def)
  next
    case Die
    with I show ?thesis by (simp add: inv_def)
  qed
qed

lemma inv_putItemReturns:
  assumes I: "inv C s" and st: "putItemReturns t err s = Some s'"
  shows "inv C s'"
proof -
  from I have Ic: "invc C (handler s) (chans s) (wgs s) (nalloc s) (tasks s)"
    by (simp add: inv_def)
  from st show ?thesis
  proof (cases rule: putItemReturns_cases)
    case Returned
    with invc_move [OF Ic, of t "(tasks s ! t)\<lparr>t_pc := TRelease\<rparr>"] show ?thesis
      by (simp add: inv_def holding_def unfinished_def)
  qed
qed

lemma inv_handleRequest:
  assumes "inv C s" "handleRequest C env s = Some s'"
  shows "inv C s'"
  using assms
  apply (cases "handler s")
  apply (auto simp: inv_def invc_def handleRequest_def respond_def Let_def count_zero holding_def unfinished_def
      filter_empty_conv less_Suc_eq
      split: if_splits list.splits part.splits sum.splits)
   apply fastforce+
  done

lemma inv_step: "inv C s \<Longrightarrow> step C env e s = Some s' \<Longrightarrow> inv C s'"
  by (cases e)
     (auto simp: step_def split: if_splits
           intro: inv_handleRequest inv_processRecord inv_putItemReturns)

lemma inv_run: "inv C s \<Longrightarrow> run C env es s = Some s' \<Longrightarrow> inv C s'"
proof (induction es arbitrary: s)
  case Nil
  then show ?case by simp
next
  case (Cons e es)
  then show ?case
    by (auto split: option.splits dest: inv_step)
qed

lemma inv_reachable: "run C env es (init request) = Some s \<Longrightarrow> inv C s"
  using inv_init inv_run by blast

lemma holding_bound:
  assumes "inv C s"
  shows "length (filter holding (tasks s)) \<le> C
         \<and> (\<forall>b lines i l. handler s = HGo b lines i l \<longrightarrow>
               Suc (length (filter holding (tasks s))) \<le> C)"
proof (cases "cur (handler s)")
  case None
  with assms have "\<forall>g \<in> set (tasks s). \<not> holding g"
    by (auto simp add: inv_def invc_def dest: holding_unfinished)
  then have "length (filter holding (tasks s)) = 0"
    by (rule count_zero)
  moreover from None have "\<And>b lines i l. handler s \<noteq> HGo b lines i l"
    by auto
  ultimately show ?thesis by simp
next
  case (Some q)
  with assms show ?thesis
    by (cases q) (auto simp: inv_def invc_def)
qed

section \<open>Every execution ends\<close>

lemma fuel_update:
  "t < length ts \<Longrightarrow> task_fuel (t_pc g') < task_fuel (t_pc (ts ! t)) \<Longrightarrow>
   sum_list (map (\<lambda>g. task_fuel (t_pc g)) (ts[t := g']))
     < sum_list (map (\<lambda>g. task_fuel (t_pc g)) ts)"
proof (induction ts arbitrary: t)
  case Nil
  then show ?case by simp
next
  case (Cons x xs)
  then show ?case by (cases t) auto
qed

lemma fuel_processRecord:
  assumes r: "proc s = Running" and st: "processRecord env t s = Some s'"
  shows "fuel env s' < fuel env s"
proof -
  note U = fuel_update [of t "tasks s"]
  from st show ?thesis
  proof (cases rule: processRecord_cases)
    case Log
    with r U [of "(tasks s ! t)\<lparr>t_pc := TLogged\<rparr>"] show ?thesis
      by (simp add: fuel_def)
  next
    case (NewID i)
    with r U [of "(tasks s ! t)\<lparr>t_id := i, t_pc := TGotId\<rparr>"] show ?thesis
      by (simp add: fuel_def)
  next
    case NewIDPanic
    with r U [of "(tasks s ! t)\<lparr>t_pc := TPanicRelease\<rparr>"] show ?thesis
      by (simp add: fuel_def)
  next
    case (MarshalError err)
    with r U [of "(tasks s ! t)\<lparr>t_pc := TMarshalError err\<rparr>"] show ?thesis
      by (simp add: fuel_def)
  next
    case (Marshal av)
    with r U [of "(tasks s ! t)\<lparr>t_pc := TMarshalled av\<rparr>"] show ?thesis
      by (simp add: fuel_def)
  next
    case (PrintFirst err)
    with r U [of "(tasks s ! t)\<lparr>t_pc := TPrinted err\<rparr>"] show ?thesis
      by (simp add: fuel_def)
  next
    case (PrintSecond err)
    with r U [of "(tasks s ! t)\<lparr>t_pc := TExiting\<rparr>"] show ?thesis
      by (simp add: fuel_def)
  next
    case Exit
    with r show ?thesis by (simp add: fuel_def)
  next
    case (Put av)
    with r U [of "(tasks s ! t)\<lparr>t_pc := TInPut\<rparr>"] show ?thesis
      by (simp add: fuel_def)
  next
    case Release
    with r U [of "(tasks s ! t)\<lparr>t_pc := TSignal\<rparr>"] show ?thesis
      by (simp add: fuel_def)
  next
    case Done
    with r U [of "(tasks s ! t)\<lparr>t_pc := TFinished\<rparr>"] show ?thesis
      by (simp add: fuel_def)
  next
    case DoneBelowZero
    with r show ?thesis by (simp add: fuel_def)
  next
    case PanicRelease
    with r U [of "(tasks s ! t)\<lparr>t_pc := TPanicSignal\<rparr>"] show ?thesis
      by (simp add: fuel_def)
  next
    case PanicDone
    with r U [of "(tasks s ! t)\<lparr>t_pc := TDying\<rparr>"] show ?thesis
      by (simp add: fuel_def)
  next
    case PanicDoneBelowZero
    with r show ?thesis by (simp add: fuel_def)
  next
    case Die
    with r show ?thesis by (simp add: fuel_def)
  qed
qed

lemma fuel_putItemReturns:
  assumes r: "proc s = Running" and st: "putItemReturns t err s = Some s'"
  shows "fuel env s' < fuel env s"
  using st
proof (cases rule: putItemReturns_cases)
  case Returned
  with r fuel_update [of t "tasks s" "(tasks s ! t)\<lparr>t_pc := TRelease\<rparr>"] show ?thesis
    by (simp add: fuel_def)
qed

lemma part_fuel_pos: "0 < part_fuel p"
proof (cases p)
  case (NextPartError err)
  then show ?thesis by simp
next
  case (Part formName csv)
  then show ?thesis by (cases csv) simp_all
qed

lemma fuel_handleRequest:
  assumes I: "inv C s" and r: "proc s = Running" and st: "handleRequest C env s = Some s'"
  shows "fuel env s' < fuel env s"
  using assms
  apply (cases "handler s")
  apply (auto simp: inv_def invc_def handleRequest_def respond_def fuel_def parts_fuel_def partsOf_def
      contentTypeOf_def Let_def part_fuel_pos
      split: if_splits list.splits part.splits sum.splits)
  done

lemma fuel_step:
  "inv C s \<Longrightarrow> step C env e s = Some s' \<Longrightarrow> fuel env s' < fuel env s"
  by (cases e)
     (auto simp: step_def split: if_splits
           intro: fuel_handleRequest fuel_processRecord fuel_putItemReturns)

lemma fuel_run:
  "inv C s \<Longrightarrow> run C env es s = Some s' \<Longrightarrow> length es + fuel env s' \<le> fuel env s"
proof (induction es arbitrary: s)
  case Nil
  then show ?case by simp
next
  case (Cons e es)
  from Cons.prems obtain s1 where s1: "step C env e s = Some s1" and r: "run C env es s1 = Some s'"
    by (auto split: option.splits)
  from Cons.prems(1) s1 have "inv C s1" by (rule inv_step)
  from Cons.IH [OF this r] fuel_step [OF Cons.prems(1) s1] show ?case by simp
qed

section \<open>No execution is stuck\<close>

lemma count_pos_ex: "0 < length (filter P xs) \<Longrightarrow> \<exists>t < length xs. P (xs ! t)"
proof -
  assume "0 < length (filter P xs)"
  then have "filter P xs \<noteq> []" by simp
  then obtain x where "x \<in> set xs" "P x" by (auto simp: filter_empty_conv)
  then show ?thesis by (auto simp: in_set_conv_nth)
qed

text \<open>An unfinished goroutine has a step of its own, unless it waits for the store.\<close>

lemma worker_step:
  assumes I: "inv C s" and r: "proc s = Running" and t: "t < length (tasks s)"
    and u: "unfinished (tasks s ! t)" and p: "t_pc (tasks s ! t) \<noteq> TInPut"
  shows "\<exists>s'. step C env (Worker t) s = Some s'"
proof -
  have hd: "holding (tasks s ! t) \<Longrightarrow> 0 < chans s (t_sem (tasks s ! t))"
    using holding_token [OF I t] .
  from unfinished_counted [OF I t u] have w: "0 < wgs s (t_sem (tasks s ! t))" .
  show ?thesis
  proof (cases "t_pc (tasks s ! t)")
    case TGotId
    with t r show ?thesis
      by (simp add: step_def processRecord_def Let_def split: sum.splits)
  next
    case TLogged
    with t r show ?thesis
      by (simp add: step_def processRecord_def Let_def split: option.splits)
  next
    case TRelease
    with hd have "0 < chans s (t_sem (tasks s ! t))" by (simp add: holding_def)
    with TRelease t r show ?thesis
      by (simp add: step_def processRecord_def Let_def)
  next
    case TPanicRelease
    with hd have "0 < chans s (t_sem (tasks s ! t))" by (simp add: holding_def)
    with TPanicRelease t r show ?thesis
      by (simp add: step_def processRecord_def Let_def)
  next
    case TFinished
    with u show ?thesis by (simp add: unfinished_def)
  next
    case TDying
    with u show ?thesis by (simp add: unfinished_def)
  next
    case TInPut
    with p show ?thesis by simp
  qed (use t r w in \<open>simp_all add: step_def processRecord_def Let_def\<close>)
qed

lemma store_step:
  assumes "proc s = Running" "t < length (tasks s)" "t_pc (tasks s ! t) = TInPut"
  shows "\<exists>s'. step C env (Store t err) s = Some s'"
  using assms by (cases err) (simp_all add: step_def putItemReturns_def Let_def)

lemma worker_enabled:
  assumes I: "inv C s" and r: "proc s = Running" and t: "t < length (tasks s)"
    and u: "unfinished (tasks s ! t)"
  shows "\<exists>e s'. step C env e s = Some s'"
proof (cases "t_pc (tasks s ! t) = TInPut")
  case True
  from store_step [OF r t True, of C env None] show ?thesis by blast
next
  case False
  from worker_step [OF I r t u False, of env] show ?thesis by blast
qed

text \<open>The handler is blocked only at a send on a full channel, while some goroutine
  holds a token, and at \<open>wg.Wait()\<close>, while some goroutine is unfinished.\<close>

lemma handler_blocked:
  assumes I: "inv C s" and C: "0 < C" and nr: "\<not> returned s"
    and b: "handleRequest C env s = None"
  shows "\<exists>t < length (tasks s). unfinished (tasks s ! t)"
proof -
  from I have Ic: "invc C (handler s) (chans s) (wgs s) (nalloc s) (tasks s)"
    by (simp add: inv_def)
  show ?thesis
  proof (cases "handler s")
    case (HEntry request)
    with b show ?thesis by (simp add: handleRequest_def Let_def split: if_splits)
  next
    case HNextPart
    with b show ?thesis
      by (simp add: handleRequest_def split: list.splits part.splits sum.splits if_splits)
  next
    case (HRange b lines i)
    with b show ?thesis by (simp add: handleRequest_def split: if_splits)
  next
    case (HSend b' lines i l)
    with b have f: "\<not> chans s b' < C" by (simp add: handleRequest_def split: if_splits)
    from Ic HSend have "chans s b' = length (filter holding (tasks s))"
      by (simp add: invc_def)
    with f C have "0 < length (filter holding (tasks s))"
      by arith
    from count_pos_ex [OF this] holding_unfinished show ?thesis
      by blast
  next
    case (HGo b lines i l)
    with b show ?thesis by (simp add: handleRequest_def)
  next
    case (HWait b' lines)
    with b have f: "wgs s b' \<noteq> 0" by (simp add: handleRequest_def split: if_splits)
    from Ic HWait have "wgs s b' = length (filter unfinished (tasks s))"
      by (simp add: invc_def)
    with f have "0 < length (filter unfinished (tasks s))"
      by arith
    from count_pos_ex [OF this] show ?thesis .
  next
    case (HReturned resp)
    with nr show ?thesis by (simp add: returned_def)
  qed
qed

lemma handler_or_worker_enabled:
  assumes I: "inv C s" and C: "0 < C" and nf: "\<not> final s"
  shows "\<exists>e s'. step C env e s = Some s'"
proof (cases "handleRequest C env s")
  case None
  from nf have r: "proc s = Running" and nr: "\<not> returned s"
    by (simp_all add: final_def)
  from handler_blocked [OF I C nr None]
  obtain t where "t < length (tasks s)" "unfinished (tasks s ! t)" by blast
  with I r show ?thesis by (rule worker_enabled)
next
  case (Some s')
  with nf have "step C env Handler s = Some s'"
    by (simp add: step_def final_def)
  then show ?thesis by blast
qed


lemma can_finish:
  assumes "inv C s" "0 < C"
  shows "\<exists>es s'. run C env es s = Some s' \<and> final s'"
  using assms(1)
proof (induction "fuel env s" arbitrary: s rule: less_induct)
  case less
  show ?case
  proof (cases "final s")
    case True
    then have "run C env [] s = Some s \<and> final s" by simp
    then show ?thesis by blast
  next
    case False
    from handler_or_worker_enabled [OF less.prems assms(2) False]
    obtain e s1 where s1: "step C env e s = Some s1"
      by blast
    from less.prems s1 have I1: "inv C s1" by (rule inv_step)
    from less.prems s1 have "fuel env s1 < fuel env s" by (rule fuel_step)
    from less.hyps [OF this I1] obtain es s' where "run C env es s1 = Some s'" "final s'"
      by blast
    with s1 have "run C env (e # es) s = Some s' \<and> final s'" by simp
    then show ?thesis by blast
  qed
qed

section \<open>The further invariants hold\<close>

lemma handler_step: "step C env Handler s = Some s' \<Longrightarrow> handleRequest C env s = Some s'"
  by (simp add: step_def split: if_splits)

lemma worker_step_def: "step C env (Worker t) s = Some s' \<Longrightarrow> processRecord env t s = Some s'"
  by (simp add: step_def split: if_splits)

lemma store_step_def: "step C env (Store t err) s = Some s' \<Longrightarrow> putItemReturns t err s = Some s'"
  by (simp add: step_def split: if_splits)

lemma step_running: "step C env e s = Some s' \<Longrightarrow> proc s = Running"
  by (simp add: step_def split: if_splits)

lemma respinv_step:
  assumes "respinv env resp s" "step C env e s = Some s'"
  shows "respinv env resp s'"
proof (cases e)
  case Handler
  with assms have "handleRequest C env s = Some s'"
    by (simp add: handler_step)
  then show ?thesis
    using assms(1)
    by (cases rule: handleRequest_cases)
       (auto simp: respinv_def respond_def responseOf_def)
next
  case (Worker t)
  with assms have "processRecord env t s = Some s'"
    by (simp add: worker_step_def)
  then show ?thesis
    using assms(1)
    by (cases rule: processRecord_cases) (auto simp: respinv_def)
next
  case (Store t err)
  with assms have "putItemReturns t err s = Some s'"
    by (simp add: store_step_def)
  then show ?thesis
    using assms(1)
    by (cases rule: putItemReturns_cases) (auto simp: respinv_def)
qed

lemma map_update_same:
  "t < length xs \<Longrightarrow> f y = f (xs ! t) \<Longrightarrow> map f (xs[t := y]) = map f xs"
  by (simp add: map_update list_update_same_conv)

lemma recc_update:
  "t < length ts \<Longrightarrow> t_record g' = t_record (ts ! t) \<Longrightarrow>
   recc env R h ps (ts[t := g']) = recc env R h ps ts"
  by (cases h) (auto simp: map_update_same)

lemma recinv_step:
  assumes "recinv env R s" "inv C s" "step C env e s = Some s'"
  shows "recinv env R s'"
proof (cases e)
  case Handler
  with assms have "handleRequest C env s = Some s'"
    by (simp add: handler_step)
  then show ?thesis
    using assms(1,2)
    by (cases rule: handleRequest_cases)
       (auto simp: recinv_def respond_def recordsOf_def inv_def invc_def Cons_nth_drop_Suc)
next
  case (Worker t)
  with assms have "processRecord env t s = Some s'"
    by (simp add: worker_step_def)
  then show ?thesis
    using assms(1)
    by (cases rule: processRecord_cases) (auto simp: recinv_def recc_update)
next
  case (Store t err)
  with assms have "putItemReturns t err s = Some s'"
    by (simp add: store_step_def)
  then show ?thesis
    using assms(1)
    by (cases rule: putItemReturns_cases) (auto simp: recinv_def recc_update)
qed

lemma block_update:
  "t < length ts \<Longrightarrow> t_sem g' = t_sem (ts ! t) \<Longrightarrow> t_record g' = t_record (ts ! t) \<Longrightarrow>
   map t_record (filter (\<lambda>g. t_sem g = b) (ts[t := g']))
     = map t_record (filter (\<lambda>g. t_sem g = b) ts)"
proof (induction ts arbitrary: t)
  case Nil
  then show ?case by simp
next
  case (Cons x xs)
  then show ?case by (cases t) auto
qed

lemma blockc_update:
  "t < length ts \<Longrightarrow> t_sem g' = t_sem (ts ! t) \<Longrightarrow> t_record g' = t_record (ts ! t) \<Longrightarrow>
   blockc h (ts[t := g']) = blockc h ts"
  by (cases h) (simp_all add: block_update)

lemma blockinv_step:
  assumes "blockinv s" "inv C s" "step C env e s = Some s'"
  shows "blockinv s'"
proof (cases e)
  case Handler
  with assms have "handleRequest C env s = Some s'"
    by (simp add: handler_step)
  then show ?thesis
    using assms(1,2)
  proof (cases rule: handleRequest_cases)
    case (File lines ps)
    from assms(2) have "\<forall>g \<in> set (tasks s). t_sem g \<noteq> nalloc s"
      by (auto simp: inv_def invc_def)
    then have "filter (\<lambda>g. t_sem g = nalloc s) (tasks s) = []"
      by (simp add: filter_empty_conv)
    with File show ?thesis by (simp add: blockinv_def)
  next
    case (Go b lines i l)
    with assms(2) have "i < length lines" "l = lines ! i"
      by (simp_all add: inv_def invc_def)
    with Go assms(1) show ?thesis
      by (simp add: blockinv_def take_Suc_conv_app_nth)
  next
    case (End b lines i)
    with assms(1) show ?thesis by (simp add: blockinv_def)
  qed (auto simp: blockinv_def respond_def)
next
  case (Worker t)
  with assms have "processRecord env t s = Some s'"
    by (simp add: worker_step_def)
  then show ?thesis
    using assms(1)
    by (cases rule: processRecord_cases) (auto simp: blockinv_def blockc_update)
next
  case (Store t err)
  with assms have "putItemReturns t err s = Some s'"
    by (simp add: store_step_def)
  then show ?thesis
    using assms(1)
    by (cases rule: putItemReturns_cases) (auto simp: blockinv_def blockc_update)
qed

lemma putc_update:
  assumes P: "putc env ps ts" and t: "t < length ts"
    and c: "called g' = called (ts ! t)"
    and i: "called (ts ! t) \<longrightarrow> t_id g' = t_id (ts ! t)"
    and m: "\<forall>av. t_pc g' = TMarshalled av \<longrightarrow> MarshalMap env \<lparr>ID = t_id g'\<rparr> = Inr av"
  shows "putc env ps (ts[t := g'])"
proof -
  have s: "{t'. t' < length (ts[t := g']) \<and> called (ts[t := g'] ! t')}
           = {t'. t' < length ts \<and> called (ts ! t')}"
    using t c by (auto simp: nth_list_update)
  have e: "\<forall>(t', inp) \<in> set ps.
             TableName inp = tableName env
             \<and> MarshalMap env \<lparr>ID = t_id (ts[t := g'] ! t')\<rparr> = Inr (Item inp)"
  proof (clarify)
    fix t' inp
    assume mem: "(t', inp) \<in> set ps"
    with P have a: "TableName inp = tableName env"
      and b: "MarshalMap env \<lparr>ID = t_id (ts ! t')\<rparr> = Inr (Item inp)"
      by (auto simp: putc_def)
    from mem have "t' \<in> set (map fst ps)" by force
    with P have "called (ts ! t')" by (simp add: putc_def)
    with i t have "t_id (ts[t := g'] ! t') = t_id (ts ! t')"
      by (cases "t' = t") (simp_all add: nth_list_update)
    with a b show "TableName inp = tableName env
                   \<and> MarshalMap env \<lparr>ID = t_id (ts[t := g'] ! t')\<rparr> = Inr (Item inp)"
      by simp
  qed
  have f: "\<forall>g \<in> set (ts[t := g']). \<forall>av. t_pc g = TMarshalled av \<longrightarrow>
             MarshalMap env \<lparr>ID = t_id g\<rparr> = Inr av"
    using P m by (intro ball_update) (simp_all add: putc_def)
  from P s e f show ?thesis
    unfolding putc_def by simp
qed

lemma putc_put:
  assumes P: "putc env ps ts" and t: "t < length ts" and pc: "t_pc (ts ! t) = TMarshalled av"
  shows "putc env (ps @ [(t, \<lparr>TableName = tableName env, Item = av\<rparr>)])
           (ts[t := (ts ! t)\<lparr>t_pc := TInPut\<rparr>])"
proof -
  let ?g = "(ts ! t)\<lparr>t_pc := TInPut\<rparr>"
  from pc have nc: "\<not> called (ts ! t)" by (simp add: called_def)
  with P t have notin: "t \<notin> set (map fst ps)" by (simp add: putc_def)
  from P t pc have mm: "MarshalMap env \<lparr>ID = t_id (ts ! t)\<rparr> = Inr av"
    by (simp add: putc_def)
  have s: "{t'. t' < length (ts[t := ?g]) \<and> called (ts[t := ?g] ! t')}
           = insert t {t'. t' < length ts \<and> called (ts ! t')}"
    using t by (auto simp: nth_list_update called_def)
  have e: "\<forall>(t', inp) \<in> set ps.
             TableName inp = tableName env
             \<and> MarshalMap env \<lparr>ID = t_id (ts[t := ?g] ! t')\<rparr> = Inr (Item inp)"
  proof (clarify)
    fix t' inp
    assume mem: "(t', inp) \<in> set ps"
    with P have a: "TableName inp = tableName env"
      and b: "MarshalMap env \<lparr>ID = t_id (ts ! t')\<rparr> = Inr (Item inp)"
      by (auto simp: putc_def)
    from t have "t_id (ts[t := ?g] ! t') = t_id (ts ! t')"
      by (cases "t' = t") (simp_all add: nth_list_update)
    with a b show "TableName inp = tableName env
                   \<and> MarshalMap env \<lparr>ID = t_id (ts[t := ?g] ! t')\<rparr> = Inr (Item inp)"
      by simp
  qed
  have f: "\<forall>g \<in> set (ts[t := ?g]). \<forall>av. t_pc g = TMarshalled av \<longrightarrow>
             MarshalMap env \<lparr>ID = t_id g\<rparr> = Inr av"
    using P by (intro ball_update) (simp_all add: putc_def)
  from P s e f notin mm t show ?thesis
    unfolding putc_def by simp
qed

lemma putc_append:
  assumes P: "putc env ps ts" and pc: "t_pc g = TStart"
  shows "putc env ps (ts @ [g])"
proof -
  from pc have nc: "\<not> called g" by (simp add: called_def)
  have s: "{t'. t' < length (ts @ [g]) \<and> called ((ts @ [g]) ! t')}
           = {t'. t' < length ts \<and> called (ts ! t')}"
    using nc by (auto simp: nth_append less_Suc_eq)
  have e: "\<forall>(t', inp) \<in> set ps.
             TableName inp = tableName env
             \<and> MarshalMap env \<lparr>ID = t_id ((ts @ [g]) ! t')\<rparr> = Inr (Item inp)"
  proof (clarify)
    fix t' inp
    assume mem: "(t', inp) \<in> set ps"
    with P have a: "TableName inp = tableName env"
      and b: "MarshalMap env \<lparr>ID = t_id (ts ! t')\<rparr> = Inr (Item inp)"
      by (auto simp: putc_def)
    from mem have "t' \<in> set (map fst ps)" by force
    with P have "t' < length ts" by (simp add: putc_def)
    with a b show "TableName inp = tableName env
                   \<and> MarshalMap env \<lparr>ID = t_id ((ts @ [g]) ! t')\<rparr> = Inr (Item inp)"
      by (simp add: nth_append)
  qed
  from P s e pc show ?thesis
    unfolding putc_def by simp
qed

lemma putinv_init: "putinv env (init request)"
  by (simp add: putinv_def putc_def init_def)

lemma putinv_step:
  assumes P: "putinv env s" and st: "step C env e s = Some s'"
  shows "putinv env s'"
proof (cases e)
  case Handler
  with st have "handleRequest C env s = Some s'"
    by (simp add: handler_step)
  then show ?thesis
    using P
    by (cases rule: handleRequest_cases)
       (auto simp: putinv_def respond_def intro: putc_append)
next
  case (Worker t)
  with st have "processRecord env t s = Some s'"
    by (simp add: worker_step_def)
  then show ?thesis
    using P
    by (cases rule: processRecord_cases)
       (auto simp: putinv_def called_def intro!: putc_update putc_put)
next
  case (Store t err)
  with st have "putItemReturns t err s = Some s'"
    by (simp add: store_step_def)
  then show ?thesis
    using P
    by (cases rule: putItemReturns_cases)
       (auto simp: putinv_def called_def intro!: putc_update)
qed

lemma idc_update:
  assumes I: "idc env n ts" and t: "t < length ts"
    and h: "has_id g' = has_id (ts ! t)" and i: "t_id g' = t_id (ts ! t)"
  shows "idc env n (ts[t := g'])"
proof -
  have mem: "ts ! t \<in> set ts" using t by simp
  have a: "\<forall>g \<in> set (ts[t := g']). has_id g \<longrightarrow> (\<exists>k < n. newID env k = Some (t_id g))"
    using I mem h i by (intro ball_update) (auto simp: idc_def)
  have b: "has_id (ts[t := g'] ! u) = has_id (ts ! u) \<and> t_id (ts[t := g'] ! u) = t_id (ts ! u)"
    if "u < length ts" for u
    using t h i by (cases "u = t") (simp_all add: nth_list_update)
  from I a b show ?thesis
    unfolding idc_def by simp
qed

lemma idc_suc: "idc env n ts \<Longrightarrow> idc env (Suc n) ts"
  unfolding idc_def by (blast intro: less_SucI)

lemma idc_newID:
  assumes I: "idc env n ts" and t: "t < length ts"
    and h: "\<not> has_id (ts ! t)" and i: "newID env n = Some (t_id g')"
  shows "idc env (Suc n) (ts[t := g'])"
proof -
  from I have "\<forall>g \<in> set ts. has_id g \<longrightarrow> (\<exists>k < Suc n. newID env k = Some (t_id g))"
    unfolding idc_def by (blast intro: less_SucI)
  then have a: "\<forall>g \<in> set (ts[t := g']). has_id g \<longrightarrow> (\<exists>k < Suc n. newID env k = Some (t_id g))"
    using i by (intro ball_update) auto
  have old: "\<exists>k < n. newID env k = Some (t_id (ts ! u))" if "u < length ts" "has_id (ts ! u)" for u
    using I that by (auto simp: idc_def)
  have fresh: "t_id (ts ! u) \<noteq> t_id g'"
    if nr: "neverRepeats env" and u: "u < length ts" and hu: "has_id (ts ! u)" for u
  proof
    assume eq: "t_id (ts ! u) = t_id g'"
    from old [OF u hu] obtain k where k: "k < n" "newID env k = Some (t_id (ts ! u))" by blast
    with eq i have "newID env k = newID env n" by simp
    moreover from k i have "k \<in> {k. newID env k \<noteq> None}" "n \<in> {k. newID env k \<noteq> None}"
      by simp_all
    moreover from nr have "inj_on (newID env) {k. newID env k \<noteq> None}"
      by (simp add: neverRepeats_def)
    ultimately have "k = n"
      by (blast dest: inj_onD)
    with k show False by simp
  qed
  have b: "t_id (ts[t := g'] ! u) \<noteq> t_id (ts[t := g'] ! v)"
    if nr: "neverRepeats env" and u: "u < length ts" and v: "v < length ts" and ne: "u \<noteq> v"
      and hu: "has_id (ts[t := g'] ! u)" and hv: "has_id (ts[t := g'] ! v)" for u v
  proof -
    consider "u = t" | "v = t" | "u \<noteq> t" "v \<noteq> t" by blast
    then show ?thesis
    proof cases
      case 1
      with ne hv v have "has_id (ts ! v)" by (simp add: nth_list_update)
      from fresh [OF nr v this] 1 ne t show ?thesis
        by (auto simp: nth_list_update)
    next
      case 2
      with ne hu u have "has_id (ts ! u)" by (simp add: nth_list_update)
      from fresh [OF nr u this] 2 ne t show ?thesis
        by (auto simp: nth_list_update)
    next
      case 3
      with I nr u v ne hu hv show ?thesis
        by (simp add: idc_def nth_list_update)
    qed
  qed
  from a b show ?thesis
    unfolding idc_def by simp
qed

lemma idc_append:
  assumes I: "idc env n ts" and pc: "t_pc g = TStart"
  shows "idc env n (ts @ [g])"
proof -
  from pc have nh: "\<not> has_id g" by (simp add: has_id_def)
  have b: "t_id ((ts @ [g]) ! u) \<noteq> t_id ((ts @ [g]) ! v)"
    if nr: "neverRepeats env" and u: "u < Suc (length ts)" and v: "v < Suc (length ts)"
      and ne: "u \<noteq> v" and hu: "has_id ((ts @ [g]) ! u)" and hv: "has_id ((ts @ [g]) ! v)" for u v
  proof -
    from u hu nh have u': "u < length ts" by (cases "u = length ts") auto
    from v hv nh have v': "v < length ts" by (cases "v = length ts") auto
    from I nr u' v' ne hu hv show ?thesis
      by (simp add: idc_def nth_append)
  qed
  from I nh b show ?thesis
    unfolding idc_def by simp
qed

lemma idinv_init: "idinv env (init request)"
  by (simp add: idinv_def idc_def init_def)

lemma idinv_step:
  assumes P: "idinv env s" and st: "step C env e s = Some s'"
  shows "idinv env s'"
proof (cases e)
  case Handler
  with st have "handleRequest C env s = Some s'"
    by (simp add: handler_step)
  then show ?thesis
    using P
    by (cases rule: handleRequest_cases)
       (auto simp: idinv_def respond_def intro: idc_append)
next
  case (Worker t)
  with st have "processRecord env t s = Some s'"
    by (simp add: worker_step_def)
  then show ?thesis
    using P
  proof (cases rule: processRecord_cases)
    case (NewID i)
    with P idc_newID [of env "uuids s" "tasks s" t "(tasks s ! t)\<lparr>t_id := i, t_pc := TGotId\<rparr>"]
    show ?thesis
      by (simp add: idinv_def has_id_def)
  next
    case NewIDPanic
    with P idc_suc [OF idc_update [of env "uuids s" "tasks s" t
                                      "(tasks s ! t)\<lparr>t_pc := TPanicRelease\<rparr>"]]
    show ?thesis
      by (simp add: idinv_def has_id_def)
  qed (auto simp: idinv_def has_id_def intro!: idc_update)
next
  case (Store t err)
  with st have "putItemReturns t err s = Some s'"
    by (simp add: store_step_def)
  then show ?thesis
    using P
    by (cases rule: putItemReturns_cases)
       (auto simp: idinv_def has_id_def intro!: idc_update)
qed

text \<open>The identifiers held and the identifiers issued.\<close>

lemma held_update:
  "t < length ts \<Longrightarrow>
   mset (map f (filter P (ts[t := g']))) + (if P (ts ! t) then {#f (ts ! t)#} else {#})
     = mset (map f (filter P ts)) + (if P g' then {#f g'#} else {#})"
proof (induction ts arbitrary: t)
  case Nil
  then show ?case by simp
next
  case (Cons x xs)
  show ?case
  proof (cases t)
    case 0
    then show ?thesis by (simp del: mset_map mset_filter)
  next
    case (Suc n)
    with Cons.prems have "n < length xs" by simp
    from Cons.IH [OF this] Suc show ?thesis
      by (simp del: mset_map mset_filter split: if_splits)
  qed
qed

lemma held_same:
  "t < length ts \<Longrightarrow> P g' = P (ts ! t) \<Longrightarrow> f g' = f (ts ! t) \<Longrightarrow>
   mset (map f (filter P (ts[t := g']))) = mset (map f (filter P ts))"
  using held_update [of t ts f P g'] by (simp split: if_splits del: mset_map mset_filter)

lemma held_none:
  "t < length ts \<Longrightarrow> \<not> P g' \<Longrightarrow> \<not> P (ts ! t) \<Longrightarrow>
   mset (map f (filter P (ts[t := g']))) = mset (map f (filter P ts))"
  using held_update [of t ts f P g'] by (simp del: mset_map mset_filter)

lemma held_new:
  "t < length ts \<Longrightarrow> P g' \<Longrightarrow> \<not> P (ts ! t) \<Longrightarrow>
   mset (map f (filter P (ts[t := g']))) = mset (map f (filter P ts)) + {#f g'#}"
  using held_update [of t ts f P g'] by (simp del: mset_map mset_filter)

lemma freshinv_init: "freshinv env (init request)"
  by (simp add: freshinv_def init_def)

lemma freshinv_step:
  assumes P: "freshinv env s" and st: "step C env e s = Some s'"
  shows "freshinv env s'"
proof (cases e)
  case Handler
  with st have "handleRequest C env s = Some s'"
    by (simp add: handler_step)
  then show ?thesis
    using P
    by (cases rule: handleRequest_cases)
       (auto simp: freshinv_def respond_def has_id_def simp del: mset_map mset_filter)
next
  case (Worker t)
  with st have "processRecord env t s = Some s'"
    by (simp add: worker_step_def)
  then show ?thesis
    using P
    by (cases rule: processRecord_cases)
       (auto simp: freshinv_def has_id_def held_same held_none held_new
             simp del: mset_map mset_filter)
next
  case (Store t err)
  with st have "putItemReturns t err s = Some s'"
    by (simp add: store_step_def)
  then show ?thesis
    using P
    by (cases rule: putItemReturns_cases)
       (auto simp: freshinv_def has_id_def held_same simp del: mset_map mset_filter)
qed

text \<open>Failures have causes.\<close>

lemma causec_update:
  assumes K: "causec env n Running ts"
    and p: "panicking (t_pc g') \<longrightarrow> (\<exists>k < n. newID env k = None)"
    and x: "exiting (t_pc g') \<longrightarrow> (\<exists>e. MarshalMap env \<lparr>ID = t_id g'\<rparr> = Inl e)"
  shows "causec env n Running (ts[t := g'])"
proof -
  have a: "\<forall>g \<in> set (ts[t := g']). panicking (t_pc g) \<longrightarrow> (\<exists>k < n. newID env k = None)"
    using K p by (intro ball_update) (simp_all add: causec_def)
  have b: "\<forall>g \<in> set (ts[t := g']).
             exiting (t_pc g) \<longrightarrow> (\<exists>e. MarshalMap env \<lparr>ID = t_id g\<rparr> = Inl e)"
    using K x by (intro ball_update) (simp_all add: causec_def)
  from a b show ?thesis by (simp add: causec_def)
qed

lemma causec_suc: "causec env n p ts \<Longrightarrow> causec env (Suc n) p ts"
  unfolding causec_def by (blast intro: less_SucI)

lemma causec_cause:
  "causec env n p ts \<Longrightarrow> t < length ts \<Longrightarrow> panicking (t_pc (ts ! t)) \<Longrightarrow>
   \<exists>k < n. newID env k = None"
  "causec env n p ts \<Longrightarrow> t < length ts \<Longrightarrow> exiting (t_pc (ts ! t)) \<Longrightarrow>
   \<exists>e. MarshalMap env \<lparr>ID = t_id (ts ! t)\<rparr> = Inl e"
  by (auto simp: causec_def)

lemma causeinv_init: "causeinv env (init request)"
  by (simp add: causeinv_def causec_def init_def)

lemma causeinv_step:
  assumes K: "causeinv env s" and I: "inv C s" and st: "step C env e s = Some s'"
  shows "causeinv env s'"
proof -
  from st have r: "proc s = Running" by (rule step_running)
  with K have Kc: "causec env (uuids s) Running (tasks s)"
    by (simp add: causeinv_def)
  note U = causec_update [OF Kc]
  note U' = causec_update [OF causec_suc [OF Kc]]
  show ?thesis
  proof (cases e)
    case Handler
    with st have "handleRequest C env s = Some s'"
      by (simp add: handler_step)
    then show ?thesis
      using Kc r
      by (cases rule: handleRequest_cases)
         (auto simp: causeinv_def respond_def causec_def)
  next
    case (Store t err)
    with st have "putItemReturns t err s = Some s'"
      by (simp add: store_step_def)
    then show ?thesis
      using r U [of "(tasks s ! t)\<lparr>t_pc := TRelease\<rparr>" t]
      by (cases rule: putItemReturns_cases) (simp add: causeinv_def)
  next
    case (Worker t)
    with st have "processRecord env t s = Some s'"
      by (simp add: worker_step_def)
    then show ?thesis
    proof (cases rule: processRecord_cases)
      case Log
      with r U [of "(tasks s ! t)\<lparr>t_pc := TLogged\<rparr>" t] show ?thesis
        by (simp add: causeinv_def)
    next
      case (NewID i)
      with r U' [of "(tasks s ! t)\<lparr>t_id := i, t_pc := TGotId\<rparr>" t] show ?thesis
        by (simp add: causeinv_def)
    next
      case NewIDPanic
      then have "\<exists>k < Suc (uuids s). newID env k = None" by blast
      with NewIDPanic r U' [of "(tasks s ! t)\<lparr>t_pc := TPanicRelease\<rparr>" t] show ?thesis
        by (simp add: causeinv_def)
    next
      case (MarshalError err)
      with r U [of "(tasks s ! t)\<lparr>t_pc := TMarshalError err\<rparr>" t] show ?thesis
        by (simp add: causeinv_def)
    next
      case (Marshal av)
      with r U [of "(tasks s ! t)\<lparr>t_pc := TMarshalled av\<rparr>" t] show ?thesis
        by (simp add: causeinv_def)
    next
      case (PrintFirst err)
      with causec_cause(2) [OF Kc, of t] r U [of "(tasks s ! t)\<lparr>t_pc := TPrinted err\<rparr>" t]
      show ?thesis
        by (simp add: causeinv_def)
    next
      case (PrintSecond err)
      with causec_cause(2) [OF Kc, of t] r U [of "(tasks s ! t)\<lparr>t_pc := TExiting\<rparr>" t]
      show ?thesis
        by (simp add: causeinv_def)
    next
      case Exit
      then have "\<exists>g \<in> set (tasks s). t_pc g = TExiting"
        by (metis nth_mem)
      with Exit Kc show ?thesis
        by (simp add: causeinv_def causec_def)
    next
      case (Put av)
      with r U [of "(tasks s ! t)\<lparr>t_pc := TInPut\<rparr>" t] show ?thesis
        by (simp add: causeinv_def)
    next
      case Release
      with r U [of "(tasks s ! t)\<lparr>t_pc := TSignal\<rparr>" t] show ?thesis
        by (simp add: causeinv_def)
    next
      case Done
      with r U [of "(tasks s ! t)\<lparr>t_pc := TFinished\<rparr>" t] show ?thesis
        by (simp add: causeinv_def)
    next
      case DoneBelowZero
      with unfinished_counted [OF I, of t] show ?thesis
        by (simp add: unfinished_def)
    next
      case PanicRelease
      with causec_cause(1) [OF Kc, of t] r U [of "(tasks s ! t)\<lparr>t_pc := TPanicSignal\<rparr>" t]
      show ?thesis
        by (simp add: causeinv_def)
    next
      case PanicDone
      with causec_cause(1) [OF Kc, of t] r U [of "(tasks s ! t)\<lparr>t_pc := TDying\<rparr>" t]
      show ?thesis
        by (simp add: causeinv_def)
    next
      case PanicDoneBelowZero
      with unfinished_counted [OF I, of t] show ?thesis
        by (simp add: unfinished_def)
    next
      case Die
      then have "\<exists>g \<in> set (tasks s). t_pc g = TDying"
        by (metis nth_mem)
      with Die Kc show ?thesis
        by (simp add: causeinv_def causec_def)
    qed
  qed
qed

lemma allinv_init: "allinv C env request (init request)"
  by (simp add: allinv_def inv_init putinv_init idinv_init freshinv_init causeinv_init)
     (simp add: recinv_def respinv_def blockinv_def init_def)

lemma allinv_step:
  assumes A: "allinv C env request s" and st: "step C env e s = Some s'"
  shows "allinv C env request s'"
proof -
  from A have I: "inv C s" and P: "putinv env s" and D: "idinv env s"
    and F: "freshinv env s" and B: "blockinv s" and K: "causeinv env s"
    and R: "recinv env (recordsOf env request) s"
    and S: "respinv env (responseOf env request) s"
    by (simp_all add: allinv_def)
  from I st have "inv C s'" by (rule inv_step)
  moreover from P st have "putinv env s'" by (rule putinv_step)
  moreover from D st have "idinv env s'" by (rule idinv_step)
  moreover from F st have "freshinv env s'" by (rule freshinv_step)
  moreover from B I st have "blockinv s'" by (rule blockinv_step)
  moreover from K I st have "causeinv env s'" by (rule causeinv_step)
  moreover from R I st have "recinv env (recordsOf env request) s'" by (rule recinv_step)
  moreover from S st have "respinv env (responseOf env request) s'" by (rule respinv_step)
  ultimately show ?thesis by (simp add: allinv_def)
qed

lemma allinv_run:
  "allinv C env request s \<Longrightarrow> run C env es s = Some s' \<Longrightarrow> allinv C env request s'"
proof (induction es arbitrary: s)
  case Nil
  then show ?case by simp
next
  case (Cons e es)
  then show ?case
    by (auto split: option.splits dest: allinv_step)
qed

lemma allinv_reachable:
  "run C env es (init request) = Some s \<Longrightarrow> allinv C env request s"
  using allinv_init allinv_run by blast

section \<open>Facts about executions\<close>


lemma leaving_update:
  assumes "leaving ts k" "t < length ts"
    and "t_pc (ts ! t) = TRelease \<or> t_pc (ts ! t) = TSignal \<or> t_pc (ts ! t) = TFinished
         \<Longrightarrow> t_pc g' = TRelease \<or> t_pc g' = TSignal \<or> t_pc g' = TFinished"
  shows "leaving (ts[t := g']) k"
  using assms by (cases "k = t") (auto simp: leaving_def)

lemma leaving_append: "leaving ts k \<Longrightarrow> leaving (ts @ [g]) k"
  by (auto simp: leaving_def nth_append)

lemma failing_update:
  assumes "failing ts k" "t < length ts"
    and "fatal (t_pc (ts ! t)) \<Longrightarrow> fatal (t_pc g')"
  shows "failing (ts[t := g']) k"
  using assms by (cases "k = t") (auto simp: failing_def)

lemma failing_append: "failing ts k \<Longrightarrow> failing (ts @ [g]) k"
  by (auto simp: failing_def nth_append)

text \<open>The log only grows; a goroutine that is leaving stays so, and one that is failing
  stays so.\<close>

lemma step_monotone:
  assumes st: "step C env e s = Some s'"
  shows "set (logs s) \<subseteq> set (logs s')
         \<and> (leaving (tasks s) k \<longrightarrow> leaving (tasks s') k)
         \<and> (failing (tasks s) k \<longrightarrow> failing (tasks s') k)"
proof (cases e)
  case Handler
  with st have "handleRequest C env s = Some s'"
    by (simp add: handler_step)
  then show ?thesis
    by (cases rule: handleRequest_cases)
       (auto simp: respond_def leaving_append failing_append)
next
  case (Worker t)
  with st have "processRecord env t s = Some s'"
    by (simp add: worker_step_def)
  then show ?thesis
    by (cases rule: processRecord_cases)
       (auto simp: fatal_def intro!: leaving_update failing_update)
next
  case (Store t err)
  with st have "putItemReturns t err s = Some s'"
    by (simp add: store_step_def)
  then show ?thesis
    by (cases rule: putItemReturns_cases)
       (auto simp: fatal_def intro!: leaving_update failing_update)
qed

lemma run_monotone:
  "run C env es s = Some s' \<Longrightarrow>
   set (logs s) \<subseteq> set (logs s')
   \<and> (leaving (tasks s) k \<longrightarrow> leaving (tasks s') k)
   \<and> (failing (tasks s) k \<longrightarrow> failing (tasks s') k)"
proof (induction es arbitrary: s)
  case Nil
  then show ?case by simp
next
  case (Cons e es)
  from Cons.prems obtain s1 where s1: "step C env e s = Some s1" and r: "run C env es s1 = Some s'"
    by (auto split: option.splits)
  from step_monotone [OF s1, of k] Cons.IH [OF r] show ?case by blast
qed




lemma uncalled_never_put:
  assumes "putinv env s" "\<not> (k < length (tasks s) \<and> called (tasks s ! k))"
  shows "filter (\<lambda>p. fst p = k) (puts s) = []"
proof -
  from assms have "k \<notin> set (map fst (puts s))"
    by (simp add: putinv_def putc_def)
  then show ?thesis
    by (auto simp: filter_empty_conv)
qed

lemma failing_never_put:
  assumes "putinv env s" "failing (tasks s) k"
  shows "filter (\<lambda>p. fst p = k) (puts s) = []"
proof -
  from assms(2) have "\<not> called (tasks s ! k)"
    by (cases "t_pc (tasks s ! k)") (simp_all add: failing_def fatal_def called_def)
  with assms(1) show ?thesis by (intro uncalled_never_put) simp_all
qed

text \<open>Outside the loop over the lines of a part every goroutine has run its
  \<open>wg.Done()\<close>.\<close>

lemma after_loop:
  assumes "inv C s" "handler s = HNextPart \<or> returned s"
  shows "\<forall>g \<in> set (tasks s). \<not> unfinished g"
proof -
  from assms(2) have "cur (handler s) = None"
    by (cases "handler s") (simp_all add: returned_def)
  with assms(1) show ?thesis by (simp add: inv_def invc_def)
qed









text \<open>What \<open>wg.Wait()\<close> waits for.\<close>

lemma at_wait:
  assumes I: "inv C s" and B: "blockinv s" and h: "handler s = HWait b lines"
  shows "map t_record (filter (\<lambda>g. t_sem g = b) (tasks s)) = lines
         \<and> wgs s b = length (filter unfinished (tasks s))
         \<and> (\<forall>g \<in> set (tasks s). unfinished g \<longrightarrow> t_sem g = b)
         \<and> ((\<exists>s'. step C env Handler s = Some s')
              \<longleftrightarrow> proc s = Running \<and> (\<forall>g \<in> set (tasks s). \<not> unfinished g))"
proof -
  from I h have u: "wgs s b = length (filter unfinished (tasks s))"
    and o: "\<forall>g \<in> set (tasks s). unfinished g \<longrightarrow> t_sem g = b"
    by (auto simp: inv_def invc_def)
  from B h have l: "map t_record (filter (\<lambda>g. t_sem g = b) (tasks s)) = lines"
    by (simp add: blockinv_def)
  have "wgs s b = 0 \<longleftrightarrow> (\<forall>g \<in> set (tasks s). \<not> unfinished g)"
    using u by (simp add: filter_empty_conv)
  with h have "(\<exists>s'. step C env Handler s = Some s')
              \<longleftrightarrow> proc s = Running \<and> (\<forall>g \<in> set (tasks s). \<not> unfinished g)"
    by (simp add: step_def handleRequest_def)
  with u o l show ?thesis by blast
qed

lemma empty_file_part:
  assumes h: "handler s = HNextPart" and r: "reader s = Part ''file'' (Inr []) # ps"
    and p: "proc s = Running"
  shows "\<exists>s'. run C env [Handler, Handler, Handler] s = Some s'
           \<and> handler s' = HNextPart \<and> reader s' = ps
           \<and> puts s' = puts s \<and> tasks s' = tasks s"
  using assms by (simp add: step_def handleRequest_def)

lemma halted_no_step: "proc s \<noteq> Running \<Longrightarrow> step C env e s = None"
  by (simp add: step_def)

lemma readable_response:
  "readable ps \<Longrightarrow>
   response ps = \<lparr>StatusCode = 200, Body = ''CSV data processed successfully''\<rparr>"
  by (induction ps rule: response.induct) (auto split: sum.splits if_splits)

subsection \<open>Evaluating concrete runs\<close>

lemmas eval_defs = step_def handleRequest_def processRecord_def putItemReturns_def
  init_def okEnv_def panicEnv_def postRequest_def semCapacity_def respond_def Let_def
  oneLine_def twoLines_def tenLines_def truncated_def
  dispatchOne_def dispatchTwo_def writeOneWaiting_def writeOne_def
  secondPutFails_def fifthAfterFourthFailed_def beforeNewID_def
  extractBoundary_def numeral_eq_Suc



subsection \<open>The calls of \<open>PutItem\<close> do not depend on the content of the lines\<close>










subsection \<open>The ways out of a goroutine\<close>

lemma kind_update:
  assumes "k < length ts" "P (t_pc (ts ! k))"
    and "P (t_pc (ts ! t)) \<Longrightarrow> P (t_pc g')"
  shows "P (t_pc (ts[t := g'] ! k))"
  using assms by (cases "k = t") auto

lemmas kind_updates = kind_update [where P = panicking] kind_update [where P = exiting]

text \<open>A goroutine on its way out of a panic stays on it, and one on the error branch
  stays on it.\<close>

lemma step_kind:
  assumes st: "step C env e s = Some s'"
  shows "(k < length (tasks s) \<and> panicking (t_pc (tasks s ! k))
            \<longrightarrow> k < length (tasks s') \<and> panicking (t_pc (tasks s' ! k)))
       \<and> (k < length (tasks s) \<and> exiting (t_pc (tasks s ! k))
            \<longrightarrow> k < length (tasks s') \<and> exiting (t_pc (tasks s' ! k)))"
proof (cases e)
  case Handler
  with st have "handleRequest C env s = Some s'"
    by (simp add: handler_step)
  then show ?thesis
    by (cases rule: handleRequest_cases) (auto simp: respond_def nth_append)
next
  case (Worker t)
  with st have "processRecord env t s = Some s'"
    by (simp add: worker_step_def)
  then show ?thesis
    by (cases rule: processRecord_cases) (auto intro!: kind_updates)
next
  case (Store t err)
  with st have "putItemReturns t err s = Some s'"
    by (simp add: store_step_def)
  then show ?thesis
    by (cases rule: putItemReturns_cases) (auto intro!: kind_updates)
qed

lemma run_kind:
  "run C env es s = Some s' \<Longrightarrow>
   (k < length (tasks s) \<and> panicking (t_pc (tasks s ! k))
      \<longrightarrow> k < length (tasks s') \<and> panicking (t_pc (tasks s' ! k)))
   \<and> (k < length (tasks s) \<and> exiting (t_pc (tasks s ! k))
      \<longrightarrow> k < length (tasks s') \<and> exiting (t_pc (tasks s' ! k)))"
proof (induction es arbitrary: s)
  case Nil
  then show ?case by simp
next
  case (Cons e es)
  from Cons.prems obtain s1 where s1: "step C env e s = Some s1" and r: "run C env es s1 = Some s'"
    by (auto split: option.splits)
  from step_kind [OF s1, of k] Cons.IH [OF r] show ?case by blast
qed

lemma not_both: "\<not> (panicking pc \<and> exiting pc)"
  by (cases pc) simp_all

text \<open>A failing goroutine is never blocked: at most three steps of its own end the
  process, with \<open>os.Exit(1)\<close> on the error branch and with the panic otherwise.\<close>

lemma failing_ends:
  assumes I: "inv C s" and r: "proc s = Running" and f: "failing (tasks s) t"
  shows "\<exists>es s'. set es \<subseteq> {Worker t} \<and> length es \<le> 3 \<and> run C env es s = Some s'
           \<and> proc s' = (if exiting (t_pc (tasks s ! t)) then Exited 1 else Panicked)"
proof -
  from f have t: "t < length (tasks s)" and ft: "fatal (t_pc (tasks s ! t))"
    by (simp_all add: failing_def)
  let ?b = "t_sem (tasks s ! t)"
  have three: "\<exists>s'. run C env [Worker t, Worker t, Worker t] s = Some s' \<and> proc s' = p \<Longrightarrow>
          p = (if exiting (t_pc (tasks s ! t)) then Exited 1 else Panicked) \<Longrightarrow> ?thesis" for p
    by (intro exI [of _ "[Worker t, Worker t, Worker t]"]) auto
  have two: "\<exists>s'. run C env [Worker t, Worker t] s = Some s' \<and> proc s' = p \<Longrightarrow>
          p = (if exiting (t_pc (tasks s ! t)) then Exited 1 else Panicked) \<Longrightarrow> ?thesis" for p
    by (intro exI [of _ "[Worker t, Worker t]"]) auto
  have one: "\<exists>s'. run C env [Worker t] s = Some s' \<and> proc s' = p \<Longrightarrow>
          p = (if exiting (t_pc (tasks s ! t)) then Exited 1 else Panicked) \<Longrightarrow> ?thesis" for p
    by (intro exI [of _ "[Worker t]"]) auto
  show ?thesis
  proof (cases "t_pc (tasks s ! t)")
    case (TMarshalError err)
    with t r show ?thesis
      by (intro three [of "Exited 1"]) (simp_all add: step_def processRecord_def Let_def)
  next
    case (TPrinted err)
    with t r show ?thesis
      by (intro two [of "Exited 1"]) (simp_all add: step_def processRecord_def Let_def)
  next
    case TExiting
    with t r show ?thesis
      by (intro one [of "Exited 1"]) (simp_all add: step_def processRecord_def Let_def)
  next
    case TPanicRelease
    with holding_token [OF I t] unfinished_counted [OF I t]
    have c: "0 < chans s ?b" "0 < wgs s ?b" by (simp_all add: holding_def unfinished_def)
    with TPanicRelease t r show ?thesis
      by (intro three [of Panicked]) (simp_all add: step_def processRecord_def Let_def)
  next
    case TPanicSignal
    with unfinished_counted [OF I t] have "0 < wgs s ?b" by (simp add: unfinished_def)
    with TPanicSignal t r show ?thesis
      by (intro two [of Panicked]) (simp_all add: step_def processRecord_def Let_def)
  next
    case TDying
    with t r show ?thesis
      by (intro one [of Panicked]) (simp_all add: step_def processRecord_def Let_def)
  qed (use ft in \<open>simp_all add: fatal_def\<close>)
qed

text \<open>The failure itself: the step of a goroutine in which \<open>uuid.New()\<close> panics, or in
  which \<open>MarshalMap\<close> returns an error. The process still runs after it.\<close>

lemma failure_step:
  assumes r: "proc s = Running" and t: "t < length (tasks s)"
    and c: "t_pc (tasks s ! t) = TLogged \<and> newID env (uuids s) = None
          \<or> t_pc (tasks s ! t) = TGotId \<and> (\<exists>e. MarshalMap env \<lparr>ID = t_id (tasks s ! t)\<rparr> = Inl e)"
  shows "\<exists>s'. step C env (Worker t) s = Some s'
           \<and> proc s' = Running \<and> puts s' = puts s \<and> chans s' = chans s \<and> wgs s' = wgs s
           \<and> t < length (tasks s')
           \<and> (panicking (t_pc (tasks s' ! t)) \<longleftrightarrow> t_pc (tasks s ! t) = TLogged)
           \<and> (exiting (t_pc (tasks s' ! t)) \<longleftrightarrow> t_pc (tasks s ! t) = TGotId)"
  using assms by (auto simp: step_def processRecord_def Let_def)





section \<open>The claims\<close>

text \<open>
  C1: in every state that an execution of the program reaches, the number of goroutines
  between the acquisition of their token and its release is at most the capacity of the
  channel, which the program sets to 500. This also holds with the token counted that
  the handler has sent for the goroutine it is about to create.
\<close>

theorem in_flight_at_most_capacity:
  assumes "run semCapacity env sched (init request) = Some s"
  shows "semCapacity = 500
         \<and> length (filter holding (tasks s)) \<le> 500
         \<and> (\<forall>b lines i l. handler s = HGo b lines i l \<longrightarrow>
               Suc (length (filter holding (tasks s))) \<le> 500)"
  using holding_bound [OF inv_reachable [OF assms]]
  by (simp add: semCapacity_def)

theorem in_flight_at_most_capacity_witness:
  "\<exists>s. run semCapacity (okEnv twoLines) (replicate 9 Handler) (init postRequest) = Some s
       \<and> length (filter holding (tasks s)) = 2
       \<and> length (filter holding (tasks s)) \<le> 500"
proof -
  obtain s where s: "run semCapacity (okEnv twoLines) (replicate 9 Handler) (init postRequest) = Some s"
    by (simp add: eval_defs)
  then have "length (filter holding (tasks s)) = 2"
    by (auto simp add: eval_defs holding_def)
  with s in_flight_at_most_capacity [OF s] show ?thesis by blast
qed

text \<open>
  C2: the handler is past the \<open>range\<close> loop and its \<open>wg.Wait()\<close> only in states in which
  every goroutine created so far has run its \<open>wg.Done()\<close>. At \<open>wg.Wait()\<close> the
  goroutines of the block are one for each of the \<open>N\<close> lines of the part, in their order,
  the counter of the wait group is the number of those that have not run \<open>wg.Done()\<close>,
  and the handler has a step exactly when there is none. When the handler has returned,
  the goroutines are one for each record of the request and all have run \<open>wg.Done()\<close>:
  the number of completions is the number of records. For a file part with no line the
  handler passes the loop in three steps of its own, with no call of \<open>PutItem\<close> and no
  goroutine created. Every execution can be continued until the handler has returned or
  the process has ended, and no execution has more steps than \<open>fuel\<close> allows.
\<close>

theorem dispatch_returns_after_all_tasks:
  assumes "run semCapacity env sched (init request) = Some s"
  shows "(\<forall>b lines. handler s = HWait b lines \<longrightarrow>
            map t_record (filter (\<lambda>g. t_sem g = b) (tasks s)) = lines
            \<and> wgs s b = length (filter unfinished (tasks s))
            \<and> (\<forall>g \<in> set (tasks s). unfinished g \<longrightarrow> t_sem g = b)
            \<and> ((\<exists>s'. step semCapacity env Handler s = Some s')
                 \<longleftrightarrow> proc s = Running \<and> (\<forall>g \<in> set (tasks s). \<not> unfinished g)))
       \<and> (handler s = HNextPart \<or> returned s \<longrightarrow> (\<forall>g \<in> set (tasks s). \<not> unfinished g))
       \<and> (handler s = HNextPart \<longrightarrow>
            map t_record (tasks s) @ submitted (reader s) = recordsOf env request)
       \<and> (returned s \<longrightarrow>
            map t_record (tasks s) = recordsOf env request
            \<and> length (filter (\<lambda>g. \<not> unfinished g) (tasks s)) = length (recordsOf env request))
       \<and> (\<forall>ps. handler s = HNextPart \<and> reader s = Part ''file'' (Inr []) # ps
            \<and> proc s = Running \<longrightarrow>
            (\<exists>s'. run semCapacity env [Handler, Handler, Handler] s = Some s'
              \<and> handler s' = HNextPart \<and> reader s' = ps
              \<and> puts s' = puts s \<and> tasks s' = tasks s))
       \<and> (\<exists>es s'. run semCapacity env es s = Some s' \<and> final s')
       \<and> length sched \<le> fuel env (init request)"
proof -
  note A = allinv_reachable [OF assms]
  then have I: "inv semCapacity s" and B: "blockinv s"
    and R: "recinv env (recordsOf env request) s"
    by (simp_all add: allinv_def)
  have w: "\<forall>b lines. handler s = HWait b lines \<longrightarrow>
            map t_record (filter (\<lambda>g. t_sem g = b) (tasks s)) = lines
            \<and> wgs s b = length (filter unfinished (tasks s))
            \<and> (\<forall>g \<in> set (tasks s). unfinished g \<longrightarrow> t_sem g = b)
            \<and> ((\<exists>s'. step semCapacity env Handler s = Some s')
                 \<longleftrightarrow> proc s = Running \<and> (\<forall>g \<in> set (tasks s). \<not> unfinished g))"
    using at_wait [OF I B] by blast
  have a: "handler s = HNextPart \<or> returned s \<longrightarrow> (\<forall>g \<in> set (tasks s). \<not> unfinished g)"
    using after_loop [OF I] by blast
  have n: "handler s = HNextPart \<longrightarrow>
            map t_record (tasks s) @ submitted (reader s) = recordsOf env request"
    using R by (auto simp: recinv_def)
  have r: "map t_record (tasks s) = recordsOf env request
           \<and> length (filter (\<lambda>g. \<not> unfinished g) (tasks s)) = length (recordsOf env request)"
    if ret: "returned s"
  proof -
    from ret obtain resp where "handler s = HReturned resp"
      by (auto simp: returned_def split: hpc.splits)
    with R have m: "map t_record (tasks s) = recordsOf env request"
      by (simp add: recinv_def)
    then have "length (tasks s) = length (recordsOf env request)"
      by (metis length_map)
    moreover from after_loop [OF I] ret
    have "filter (\<lambda>g. \<not> unfinished g) (tasks s) = tasks s"
      by (simp add: filter_id_conv)
    ultimately show ?thesis using m by simp
  qed
  have e: "\<forall>ps. handler s = HNextPart \<and> reader s = Part ''file'' (Inr []) # ps
            \<and> proc s = Running \<longrightarrow>
            (\<exists>s'. run semCapacity env [Handler, Handler, Handler] s = Some s'
              \<and> handler s' = HNextPart \<and> reader s' = ps
              \<and> puts s' = puts s \<and> tasks s' = tasks s)"
    using empty_file_part [of s _ semCapacity env] by blast
  have "0 < semCapacity" by (simp add: semCapacity_def)
  with I have f: "\<exists>es s'. run semCapacity env es s = Some s' \<and> final s'"
    by (rule can_finish)
  from fuel_run [OF inv_init assms]
  have l: "length sched \<le> fuel env (init request)" by simp
  from w a n r e f l show ?thesis by blast
qed

theorem dispatch_returns_after_all_tasks_witness:
  "(\<exists>s. run semCapacity (okEnv twoLines) dispatchTwo (init postRequest) = Some s
     \<and> handler s = HWait 0 [ [''a'', ''1''], [''a'', ''1'']]
     \<and> map t_pc (tasks s) = [TStart, TStart]
     \<and> step semCapacity (okEnv twoLines) Handler s = None
     \<and> wgs s 0 = 2 \<and> wgs s 0 = length (filter unfinished (tasks s)))
   \<and> (\<exists>s. run semCapacity (okEnv oneLine) writeOneWaiting (init postRequest) = Some s
     \<and> handler s = HWait 0 [ [''a'', ''1'']]
     \<and> map t_record (filter (\<lambda>g. t_sem g = 0) (tasks s)) = [ [''a'', ''1'']]
     \<and> (\<exists>s'. step semCapacity (okEnv oneLine) Handler s = Some s')
     \<and> (\<forall>g \<in> set (tasks s). \<not> unfinished g))"
proof -
  have "map_option (\<lambda>s. (handler s, map t_pc (tasks s), wgs s 0,
                          step semCapacity (okEnv twoLines) Handler s))
          (run semCapacity (okEnv twoLines) dispatchTwo (init postRequest))
        = Some (HWait 0 [ [''a'', ''1''], [''a'', ''1'']], [TStart, TStart], 2, None)"
    by (simp add: eval_defs)
  then obtain s where s: "run semCapacity (okEnv twoLines) dispatchTwo (init postRequest) = Some s"
    and h: "handler s = HWait 0 [ [''a'', ''1''], [''a'', ''1'']]"
    and p: "map t_pc (tasks s) = [TStart, TStart]"
    and n: "step semCapacity (okEnv twoLines) Handler s = None" and c: "wgs s 0 = 2"
    by auto
  from dispatch_returns_after_all_tasks [OF s] h
  have "wgs s 0 = length (filter unfinished (tasks s))" by blast
  with s h p n c have one:
    "\<exists>s. run semCapacity (okEnv twoLines) dispatchTwo (init postRequest) = Some s
     \<and> handler s = HWait 0 [ [''a'', ''1''], [''a'', ''1'']]
     \<and> map t_pc (tasks s) = [TStart, TStart]
     \<and> step semCapacity (okEnv twoLines) Handler s = None
     \<and> wgs s 0 = 2 \<and> wgs s 0 = length (filter unfinished (tasks s))"
    by (intro exI [of _ s]) simp
  have "map_option (\<lambda>s. (handler s, step semCapacity (okEnv oneLine) Handler s \<noteq> None))
          (run semCapacity (okEnv oneLine) writeOneWaiting (init postRequest))
        = Some (HWait 0 [ [''a'', ''1'']], True)"
    by (simp add: eval_defs)
  then obtain u where u: "run semCapacity (okEnv oneLine) writeOneWaiting (init postRequest) = Some u"
    and hu: "handler u = HWait 0 [ [''a'', ''1'']]"
    and eu: "\<exists>s'. step semCapacity (okEnv oneLine) Handler u = Some s'"
    by auto
  from dispatch_returns_after_all_tasks [OF u] hu eu
  have "map t_record (filter (\<lambda>g. t_sem g = 0) (tasks u)) = [ [''a'', ''1'']]
        \<and> (\<forall>g \<in> set (tasks u). \<not> unfinished g)"
    by blast
  with u hu eu have two:
    "\<exists>s. run semCapacity (okEnv oneLine) writeOneWaiting (init postRequest) = Some s
     \<and> handler s = HWait 0 [ [''a'', ''1'']]
     \<and> map t_record (filter (\<lambda>g. t_sem g = 0) (tasks s)) = [ [''a'', ''1'']]
     \<and> (\<exists>s'. step semCapacity (okEnv oneLine) Handler s = Some s')
     \<and> (\<forall>g \<in> set (tasks s). \<not> unfinished g)"
    by (intro exI [of _ u]) simp
  from one two show ?thesis by (rule conjI)
qed



text \<open>
  C4, as the program has it: when \<open>uuid.New()\<close> panics in the goroutine of a record, or
  \<open>MarshalMap\<close> returns an error to it, the process still runs after that step, and the
  other goroutines go on. From then on, in every continuation, the goroutine stays on its
  way out and its record is never submitted to \<open>PutItem\<close>; while it has not run
  \<open>wg.Done()\<close> the handler cannot return; the goroutine is never blocked, and at most
  three steps of its own end the process: after a panic the two deferred calls and the
  end through the runtime, on the error branch the two printed lines and \<open>os.Exit(1)\<close>.
  Once the process has ended nothing takes a step, so no further record is submitted.
\<close>

theorem fatal_failure_ends_process:
  assumes "run semCapacity env sched (init request) = Some s"
    and "proc s = Running" and "t < length (tasks s)"
    and "t_pc (tasks s ! t) = TLogged \<and> newID env (uuids s) = None
         \<or> t_pc (tasks s ! t) = TGotId
           \<and> (\<exists>e. MarshalMap env \<lparr>ID = t_id (tasks s ! t)\<rparr> = Inl e)"
  shows "\<exists>s1. step semCapacity env (Worker t) s = Some s1
           \<and> proc s1 = Running \<and> puts s1 = puts s \<and> failing (tasks s1) t
           \<and> (\<forall>es s'. run semCapacity env es s1 = Some s' \<longrightarrow>
                 failing (tasks s') t
                 \<and> filter (\<lambda>p. fst p = t) (puts s') = []
                 \<and> (unfinished (tasks s' ! t) \<longrightarrow> \<not> returned s')
                 \<and> (proc s' = Running \<longrightarrow>
                      (\<exists>ws s''. set ws \<subseteq> {Worker t} \<and> length ws \<le> 3
                          \<and> run semCapacity env ws s' = Some s''
                          \<and> proc s'' = (if t_pc (tasks s ! t) = TLogged then Panicked
                                        else Exited 1)))
                 \<and> (proc s' \<noteq> Running \<longrightarrow> (\<forall>e. step semCapacity env e s' = None)))"
proof -
  from failure_step [OF assms(2-4), of semCapacity]
  obtain s1 where st: "step semCapacity env (Worker t) s = Some s1"
    and r1: "proc s1 = Running" and p1: "puts s1 = puts s" and t1: "t < length (tasks s1)"
    and pk: "panicking (t_pc (tasks s1 ! t)) \<longleftrightarrow> t_pc (tasks s ! t) = TLogged"
    and ex: "exiting (t_pc (tasks s1 ! t)) \<longleftrightarrow> t_pc (tasks s ! t) = TGotId"
    by blast
  from assms(4) pk ex t1 have f1: "failing (tasks s1) t"
    by (auto simp: failing_def fatal_def)
  note A1 = allinv_step [OF allinv_reachable [OF assms(1)] st]
  have cont: "failing (tasks s') t
              \<and> filter (\<lambda>p. fst p = t) (puts s') = []
              \<and> (unfinished (tasks s' ! t) \<longrightarrow> \<not> returned s')
              \<and> (proc s' = Running \<longrightarrow>
                   (\<exists>ws s''. set ws \<subseteq> {Worker t} \<and> length ws \<le> 3
                       \<and> run semCapacity env ws s' = Some s''
                       \<and> proc s'' = (if t_pc (tasks s ! t) = TLogged then Panicked
                                     else Exited 1)))
              \<and> (proc s' \<noteq> Running \<longrightarrow> (\<forall>e. step semCapacity env e s' = None))"
    if run: "run semCapacity env es s1 = Some s'" for es s'
  proof -
    from allinv_run [OF A1 run] have I: "inv semCapacity s'" and P: "putinv env s'"
      by (simp_all add: allinv_def)
    from run_monotone [OF run, of t] f1 have f: "failing (tasks s') t"
      by blast
    then have t': "t < length (tasks s')" by (simp add: failing_def)
    from failing_never_put [OF P f] have np: "filter (\<lambda>p. fst p = t) (puts s') = []" .
    have nr: "\<not> returned s'" if "unfinished (tasks s' ! t)"
    proof
      assume "returned s'"
      with after_loop [OF I] t' have "\<not> unfinished (tasks s' ! t)"
        by simp
      with that show False by simp
    qed
    have kind: "exiting (t_pc (tasks s' ! t)) \<longleftrightarrow> t_pc (tasks s ! t) \<noteq> TLogged"
    proof (cases "t_pc (tasks s ! t) = TLogged")
      case True
      with pk run_kind [OF run, of t] t1 have "panicking (t_pc (tasks s' ! t))"
        by blast
      with True not_both [of "t_pc (tasks s' ! t)"] show ?thesis by blast
    next
      case False
      with assms(4) ex run_kind [OF run, of t] t1 have "exiting (t_pc (tasks s' ! t))"
        by blast
      with False show ?thesis by blast
    qed
    have en: "\<exists>ws s''. set ws \<subseteq> {Worker t} \<and> length ws \<le> 3
                \<and> run semCapacity env ws s' = Some s''
                \<and> proc s'' = (if t_pc (tasks s ! t) = TLogged then Panicked else Exited 1)"
      if "proc s' = Running"
      using failing_ends [OF I that f, of env] kind by auto
    from f np nr en halted_no_step [of s' semCapacity env] show ?thesis
      by blast
  qed
  from st r1 p1 f1 cont show ?thesis by blast
qed

theorem fatal_failure_ends_process_witness:
  "\<exists>s s1. run semCapacity (panicEnv oneLine) beforeNewID (init postRequest) = Some s
     \<and> proc s = Running \<and> 0 < length (tasks s) \<and> t_pc (tasks s ! 0) = TLogged
     \<and> newID (panicEnv oneLine) (uuids s) = None
     \<and> step semCapacity (panicEnv oneLine) (Worker 0) s = Some s1
     \<and> failing (tasks s1) 0 \<and> puts s1 = []"
proof -
  have "map_option (\<lambda>s. (proc s, length (tasks s), t_pc (tasks s ! 0), uuids s, puts s))
          (run semCapacity (panicEnv oneLine) beforeNewID (init postRequest))
        = Some (Running, 1, TLogged, 0, [])"
    by (simp add: eval_defs)
  then obtain s where s: "run semCapacity (panicEnv oneLine) beforeNewID (init postRequest) = Some s"
    and a0: "proc s = Running" "length (tasks s) = 1"
    and b: "t_pc (tasks s ! 0) = TLogged" "uuids s = 0" "puts s = []"
    by auto
  from a0 have a: "proc s = Running" "0 < length (tasks s)"
    by simp_all
  from b have n: "newID (panicEnv oneLine) (uuids s) = None"
    by (simp add: panicEnv_def)
  with b have c: "t_pc (tasks s ! 0) = TLogged \<and> newID (panicEnv oneLine) (uuids s) = None
         \<or> t_pc (tasks s ! 0) = TGotId
           \<and> (\<exists>e. MarshalMap (panicEnv oneLine) \<lparr>ID = t_id (tasks s ! 0)\<rparr> = Inl e)"
    by simp
  from fatal_failure_ends_process [OF s a c]
  obtain s1 where "step semCapacity (panicEnv oneLine) (Worker 0) s = Some s1"
    "puts s1 = puts s" "failing (tasks s1) 0"
    by blast
  with s a b n show ?thesis
    by (intro exI [of _ s] exI [of _ s1]) simp
qed

text \<open>
  C4 as stated fails: ten lines, all handed over; \<open>uuid.New()\<close> panics in the goroutine
  of the fourth line, the first to call it. The process does not end at once: the
  goroutine of the fifth line then runs up to its call of \<open>PutItem\<close>, and only after that
  the goroutine of the fourth line runs its deferred calls and the process ends. The
  fifth record has been submitted after the failure.
\<close>

theorem fifth_record_put_after_fourth_failed:
  "map_option (\<lambda>s. (proc s, map fst (puts s), map t_pc (tasks s)))
     (run semCapacity (panicEnv tenLines) (replicate 32 Handler @ [Worker 3, Worker 3])
        (init postRequest))
   = Some (Running, [],
           [TStart, TStart, TStart, TPanicRelease, TStart, TStart, TStart, TStart, TStart,
            TStart])
   \<and> map_option (\<lambda>s. (proc s, map fst (puts s), map t_pc (tasks s)))
       (run semCapacity (panicEnv tenLines) fifthAfterFourthFailed (init postRequest))
     = Some (Panicked, [4],
             [TStart, TStart, TStart, TDying, TInPut, TStart, TStart, TStart, TStart, TStart])"
  by (simp add: eval_defs)







text \<open>
  C9, as the program has it: when the handler returns, its response is the one that the
  method of the request and the parts of its body determine, whatever the store answered
  to the writes. It is 200 with the body \<open>CSV data processed successfully\<close> when the
  request is a POST, every part can be read and the CSV of every part named \<open>file\<close> can
  be parsed.
\<close>

theorem response_ignores_put_failures:
  assumes "run semCapacity env sched (init request) = Some s"
    and "handler s = HReturned r"
  shows "r = responseOf env request
       \<and> (HTTPMethod request = ''POST'' \<and> readable (partsOf env request) \<longrightarrow>
            r = \<lparr>StatusCode = 200, Body = ''CSV data processed successfully''\<rparr>)"
proof -
  from allinv_reachable [OF assms(1)] assms(2) have "r = responseOf env request"
    by (simp add: allinv_def respinv_def)
  then show ?thesis
    by (simp add: responseOf_def readable_response)
qed

theorem response_ignores_put_failures_witness:
  "\<exists>s. run semCapacity (okEnv twoLines) secondPutFails (init postRequest) = Some s
     \<and> ErrorPutting ''boom'' \<in> set (logs s)
     \<and> handler s = HReturned \<lparr>StatusCode = 200, Body = ''CSV data processed successfully''\<rparr>"
proof -
  obtain s where s: "run semCapacity (okEnv twoLines) secondPutFails (init postRequest) = Some s"
    by (simp add: eval_defs)
  then obtain r where h: "handler s = HReturned r" and l: "ErrorPutting ''boom'' \<in> set (logs s)"
    by (auto simp: eval_defs)
  have "HTTPMethod postRequest = ''POST''"
    and "readable (partsOf (okEnv twoLines) postRequest)"
    by (simp_all add: postRequest_def partsOf_def okEnv_def twoLines_def)
  with response_ignores_put_failures [OF s h]
  have "r = \<lparr>StatusCode = 200, Body = ''CSV data processed successfully''\<rparr>"
    by blast
  with s h l show ?thesis by blast
qed

text \<open>
  C9 as stated fails: the loop over the lines of a part returns, all goroutines having
  finished, and the handler goes on to read the next part. Here the body ends without its
  closing boundary, the read fails and the response is 500.
\<close>

theorem error_response_after_dispatch_returned:
  "map_option handler
     (run semCapacity (okEnv truncated) writeOneWaiting (init postRequest))
   = Some (HWait 0 [ [''a'', ''1'']])
   \<and> map_option (\<lambda>s. (handler s, map t_pc (tasks s)))
       (run semCapacity (okEnv truncated) writeOne (init postRequest))
     = Some (HNextPart, [TFinished])
   \<and> map_option handler
       (run semCapacity (okEnv truncated) (writeOne @ [Handler]) (init postRequest))
     = Some (HReturned \<lparr>StatusCode = 500, Body = ''Error processing file''\<rparr>)"
  by (simp add: eval_defs)

end
